theory Spec2Isabelle
  imports Main "HOL-Library.Sublist"
begin

section \<open>Data model\<close>

text \<open>
  The document text is a JavaScript string, read one UTF-16 code unit at a time; it is
  modelled as a \<open>string\<close> whose elements stand for code units. Only the ASCII
  characters \<open>( ) [ ] { } < > /\<close> and the word characters matter to the code; every
  other unit is inert. A \<open>vscode.Position\<close> is identified with its document offset
  (\<open>offsetAt\<close> and \<open>positionAt\<close> are monotone and inverse to each other on the offsets
  the code converts), so a \<open>vscode.Range\<close> is a pair of offsets.
\<close>

record Range =
  start :: nat
  endOffset :: nat

text \<open>The constructor of \<open>vscode.Range\<close> orders its two arguments.\<close>

definition mkRange :: "nat \<Rightarrow> nat \<Rightarrow> Range" where
  "mkRange a b = (if a \<le> b then \<lparr>start = a, endOffset = b\<rparr> else \<lparr>start = b, endOffset = a\<rparr>)"

text \<open>\<open>range.contains(position)\<close>: neither before the start nor after the end.\<close>

definition containsPos :: "Range \<Rightarrow> nat \<Rightarrow> bool" where
  "containsPos r p = (\<not> (p < start r \<or> endOffset r < p))"

text \<open>\<open>range.contains(otherRange)\<close>: both ends of the other range are contained.\<close>

definition containsRange :: "Range \<Rightarrow> Range \<Rightarrow> bool" where
  "containsRange r r' = (containsPos r (start r') \<and> containsPos r (endOffset r'))"

text \<open>\<open>text[i]\<close>: \<open>undefined\<close> outside the string.\<close>

definition charAt :: "string \<Rightarrow> nat \<Rightarrow> char option" where
  "charAt text i = (if i < length text then Some (text ! i) else None)"

section \<open>Bracket matcher\<close>

type_synonym BracketPair = "char \<times> char"

definition brackets :: "BracketPair list" where
  "brackets = [(CHR ''('', CHR '')''), (CHR ''['', CHR '']''), (CHR ''{'', CHR ''}'')]"

text \<open>\<open>brackets.find(pair => pair[0] === char)\<close>, where \<open>char\<close> may be \<open>undefined\<close>.\<close>

definition findBracketPair :: "char option \<Rightarrow> BracketPair option" where
  "findBracketPair ch =
     (case ch of None \<Rightarrow> None | Some c \<Rightarrow> find (\<lambda>pair. fst pair = c) brackets)"

text \<open>
  The inner loop \<open>for (j = i + 1; j < text.length; j++)\<close> with its depth counter:
  the result is the index \<open>j\<close> at which the loop reaches \<open>depth === 0\<close>, or \<open>None\<close>
  when the loop runs off the end of the text.
\<close>

function closeScan :: "string \<Rightarrow> BracketPair \<Rightarrow> nat \<Rightarrow> int \<Rightarrow> nat option" where
  "closeScan text bp j depth =
     (if j < length text then
        (if text ! j = fst bp then closeScan text bp (j + 1) (depth + 1)
         else if text ! j = snd bp then
           (if depth - 1 = 0 then Some j else closeScan text bp (j + 1) (depth - 1))
         else closeScan text bp (j + 1) depth)
      else None)"
  by pat_completeness auto
termination
  by (relation "measure (\<lambda>(text, bp, j, depth). length text - j)") auto

declare closeScan.simps [simp del]

text \<open>One iteration of the outer loop, at index \<open>i\<close>, updating \<open>bestRange\<close>.\<close>

definition bracketStep :: "string \<Rightarrow> nat \<Rightarrow> nat \<Rightarrow> Range option \<Rightarrow> Range option" where
  "bracketStep text offset i bestRange =
     (case findBracketPair (charAt text i) of
        None \<Rightarrow> bestRange
      | Some bracketPair \<Rightarrow>
          (case closeScan text bracketPair (i + 1) 1 of
             None \<Rightarrow> bestRange
           | Some j \<Rightarrow>
               (let range = mkRange (i + 1) j in
                if containsPos range offset \<and>
                   (case bestRange of None \<Rightarrow> True | Some b \<Rightarrow> containsRange b range)
                then Some range else bestRange)))"

text \<open>The outer loop \<open>for (i = offset; i >= 0; i--)\<close>.\<close>

fun bracketLoop :: "string \<Rightarrow> nat \<Rightarrow> nat \<Rightarrow> Range option \<Rightarrow> Range option" where
  "bracketLoop text offset 0 bestRange = bracketStep text offset 0 bestRange"
| "bracketLoop text offset (Suc i) bestRange =
     bracketLoop text offset i (bracketStep text offset (Suc i) bestRange)"

definition findEnclosingBrackets :: "string \<Rightarrow> nat \<Rightarrow> Range option" where
  "findEnclosingBrackets text offset = bracketLoop text offset offset None"

section \<open>Tag matcher\<close>

record TagInfo =
  index :: nat
  name :: string
  tagEnd :: nat

text \<open>The class \<open>\w\<close> of a regular expression without the \<open>u\<close> and \<open>i\<close> flags.\<close>

definition isWordChar :: "char \<Rightarrow> bool" where
  "isWordChar c =
     (c \<in> set ''abcdefghijklmnopqrstuvwxyzABCDEFGHIJKLMNOPQRSTUVWXYZ0123456789_'')"

text \<open>
  A match of \<open><(\w+)[^>]*>\<close> that starts exactly at \<open>p\<close>: the captured name and the
  index just after the match. The greedy \<open>\w+\<close> takes the whole run of word characters
  (none of them is \<open>>\<close>, and \<open>[^>]*\<close> accepts whatever follows, so no shorter name is
  ever tried with success before the longest one); the greedy \<open>[^>]*\<close> runs to the first
  \<open>>\<close>, and without one there is no match at \<open>p\<close>.
\<close>

definition openingTagAt :: "string \<Rightarrow> nat \<Rightarrow> (string \<times> nat) option" where
  "openingTagAt text p =
     (if charAt text p = Some CHR ''<'' then
        (let nm = takeWhile isWordChar (drop (p + 1) text);
             rest = drop (p + 1 + length nm) text;
             attrs = takeWhile (\<lambda>c. c \<noteq> CHR ''>'') rest
         in if nm \<noteq> [] \<and> length attrs < length rest
            then Some (nm, p + 1 + length nm + length attrs + 1) else None)
      else None)"

text \<open>
  \<open>openingTagRegex.exec(text)\<close> with the \<open>g\<close> flag: the leftmost match at or after
  \<open>lastIndex\<close>, as (\<open>match.index\<close>, \<open>match[1]\<close>, new \<open>lastIndex\<close>), or \<open>null\<close>.
\<close>

function execOpening :: "string \<Rightarrow> nat \<Rightarrow> (nat \<times> string \<times> nat) option" where
  "execOpening text lastIndex =
     (if lastIndex < length text then
        (case openingTagAt text lastIndex of
           Some (nm, e) \<Rightarrow> Some (lastIndex, nm, e)
         | None \<Rightarrow> execOpening text (lastIndex + 1))
      else None)"
  by pat_completeness auto
termination
  by (relation "measure (\<lambda>(text, lastIndex). length text - lastIndex)") auto

declare execOpening.simps [simp del]

text \<open>
  The loop \<open>while ((match = openingTagRegex.exec(text)) !== null)\<close>: it stops at the
  first match that starts after the offset and pushes every other one onto \<open>tags\<close>.
\<close>

function collectTags :: "string \<Rightarrow> nat \<Rightarrow> nat \<Rightarrow> TagInfo list \<Rightarrow> TagInfo list" where
  "collectTags text offset lastIndex tags =
     (case execOpening text lastIndex of
        None \<Rightarrow> tags
      | Some (idx, nm, e) \<Rightarrow>
          (if idx > offset then tags
           else collectTags text offset e
                  (if nm \<noteq> [] then tags @ [\<lparr>index = idx, name = nm, tagEnd = e\<rparr>] else tags)))"
  by pat_completeness auto
termination
proof -
  have open_bound: "p < q \<and> q \<le> length t" if a: "openingTagAt t p = Some (n, q)" for t p n q
  proof -
    define w where "w = takeWhile isWordChar (drop (p + 1) t)"
    define rest where "rest = drop (p + 1 + length w) t"
    define attrs where "attrs = takeWhile (\<lambda>c. c \<noteq> CHR ''>'') rest"
    from a have q: "q = p + 1 + length w + length attrs + 1" and lt: "length attrs < length rest"
      by (auto simp: openingTagAt_def Let_def w_def rest_def attrs_def split: if_splits)
    from lt have "p + 1 + length w + length attrs < length t"
      by (simp add: rest_def)
    with q show ?thesis by simp
  qed
  have exec_bound: "execOpening t l = Some (i, n, q) \<Longrightarrow> l < q \<and> q \<le> length t"
    for t l i n q
  proof (induction t l rule: execOpening.induct)
    case (1 t l)
    show ?case
    proof (cases "openingTagAt t l")
      case None
      with "1.prems" have lt: "l < length t" and rec: "execOpening t (l + 1) = Some (i, n, q)"
        by (auto simp: execOpening.simps [of t l] split: if_splits)
      from "1.IH" [OF lt None rec] show ?thesis by simp
    next
      case (Some a)
      with "1.prems" open_bound [of t l] show ?thesis
        by (auto simp: execOpening.simps [of t l] split: if_splits prod.splits)
    qed
  qed
  show ?thesis
    by (relation "measure (\<lambda>(text, offset, lastIndex, tags). length text - lastIndex)")
       (auto dest!: exec_bound)
qed

declare collectTags.simps [simp del]

text \<open>
  A match of \<open></NAME>|<NAME[^>]*>\<close> that starts exactly at \<open>p\<close>, as the new
  \<open>lastIndex\<close>: the first alternative is tried first.
\<close>

definition closingMatchAt :: "string \<Rightarrow> string \<Rightarrow> nat \<Rightarrow> nat option" where
  "closingMatchAt text nm p =
     (if prefix (''</'' @ nm @ ''>'') (drop p text) then Some (p + length nm + 3)
      else if prefix (''<'' @ nm) (drop p text) then
        (let rest = drop (p + 1 + length nm) text;
             attrs = takeWhile (\<lambda>c. c \<noteq> CHR ''>'') rest
         in if length attrs < length rest
            then Some (p + 1 + length nm + length attrs + 1) else None)
      else None)"

text \<open>\<open>closingTagRegex.exec(text)\<close>: (\<open>match.index\<close>, new \<open>lastIndex\<close>) or \<open>null\<close>.\<close>

function execClosing :: "string \<Rightarrow> string \<Rightarrow> nat \<Rightarrow> (nat \<times> nat) option" where
  "execClosing text nm lastIndex =
     (if lastIndex < length text then
        (case closingMatchAt text nm lastIndex of
           Some e \<Rightarrow> Some (lastIndex, e)
         | None \<Rightarrow> execClosing text nm (lastIndex + 1))
      else None)"
  by pat_completeness auto
termination
  by (relation "measure (\<lambda>(text, nm, lastIndex). length text - lastIndex)") auto

declare execClosing.simps [simp del]

text \<open>\<open>match[0].startsWith('</')\<close> for the match that occupies \<open>[idx, e)\<close>.\<close>

definition startsWithClose :: "string \<Rightarrow> nat \<Rightarrow> nat \<Rightarrow> bool" where
  "startsWithClose text idx e = prefix ''</'' (take (e - idx) (drop idx text))"

text \<open>
  The loop \<open>while ((match = closingTagRegex.exec(text)) !== null)\<close> with its depth
  counter, entered with \<open>closingTagRegex.lastIndex = tag.end\<close> and \<open>depth = 1\<close>: the result
  is \<open>match.index\<close> of the closing tag at which \<open>depth === 0\<close>, or \<open>None\<close> when the
  regular expression stops matching first.
\<close>

function tagCloseScan :: "string \<Rightarrow> string \<Rightarrow> nat \<Rightarrow> int \<Rightarrow> nat option" where
  "tagCloseScan text nm lastIndex depth =
     (case execClosing text nm lastIndex of
        None \<Rightarrow> None
      | Some (idx, e) \<Rightarrow>
          (if startsWithClose text idx e then
             (if depth - 1 = 0 then Some idx else tagCloseScan text nm e (depth - 1))
           else tagCloseScan text nm e (depth + 1)))"
  by pat_completeness auto
termination
proof -
  have close_bound: "p < q \<and> q \<le> length t" if a: "closingMatchAt t n p = Some q" for t n p q
  proof (cases "prefix (''</'' @ n @ ''>'') (drop p t)")
    case True
    then have "length (''</'' @ n @ ''>'') \<le> length (drop p t)"
      by (rule prefix_length_le)
    with a True show ?thesis
      by (auto simp: closingMatchAt_def)
  next
    case False
    define rest where "rest = drop (p + 1 + length n) t"
    define attrs where "attrs = takeWhile (\<lambda>c. c \<noteq> CHR ''>'') rest"
    from a False have q: "q = p + 1 + length n + length attrs + 1"
      and lt: "length attrs < length rest"
      by (auto simp: closingMatchAt_def Let_def rest_def attrs_def split: if_splits)
    from lt have "p + 1 + length n + length attrs < length t"
      by (simp add: rest_def)
    with q show ?thesis by simp
  qed
  have exec_bound: "execClosing t n l = Some (i, q) \<Longrightarrow> l < q \<and> q \<le> length t" for t n l i q
  proof (induction t n l rule: execClosing.induct)
    case (1 t n l)
    show ?case
    proof (cases "closingMatchAt t n l")
      case None
      with "1.prems" have lt: "l < length t" and rec: "execClosing t n (l + 1) = Some (i, q)"
        by (auto simp: execClosing.simps [of t n l] split: if_splits)
      from "1.IH" [OF lt None rec] show ?thesis by simp
    next
      case (Some a)
      with "1.prems" close_bound [of t n l] show ?thesis
        by (auto simp: execClosing.simps [of t n l] split: if_splits)
    qed
  qed
  show ?thesis
    by (relation "measure (\<lambda>(text, nm, lastIndex, depth). length text - lastIndex)")
       (auto dest!: exec_bound)
qed

declare tagCloseScan.simps [simp del]

text \<open>One iteration of the loop over the recorded tags, updating \<open>bestRange\<close>.\<close>

definition tagStep :: "string \<Rightarrow> nat \<Rightarrow> TagInfo \<Rightarrow> Range option \<Rightarrow> Range option" where
  "tagStep text offset tag bestRange =
     (case tagCloseScan text (name tag) (tagEnd tag) 1 of
        None \<Rightarrow> bestRange
      | Some idx \<Rightarrow>
          (let range = mkRange (tagEnd tag) idx in
           if containsPos range offset \<and>
              (case bestRange of None \<Rightarrow> True | Some b \<Rightarrow> containsRange b range)
           then Some range else bestRange))"

text \<open>
  The loop \<open>for (i = tags.length - 1; i >= 0; i--)\<close>; the third argument is \<open>i + 1\<close>,
  the number of tags still to examine.
\<close>

fun tagLoop :: "string \<Rightarrow> nat \<Rightarrow> TagInfo list \<Rightarrow> nat \<Rightarrow> Range option \<Rightarrow> Range option" where
  "tagLoop text offset tags 0 bestRange = bestRange"
| "tagLoop text offset tags (Suc i) bestRange =
     tagLoop text offset tags i (tagStep text offset (tags ! i) bestRange)"

definition findEnclosingTags :: "string \<Rightarrow> nat \<Rightarrow> Range option" where
  "findEnclosingTags text offset =
     (let tags = collectTags text offset 0 []
      in tagLoop text offset tags (length tags) None)"

section \<open>Range selector and command\<close>

text \<open>\<open>Position.compareTo\<close>: negative, zero or positive.\<close>

definition compareTo :: "nat \<Rightarrow> nat \<Rightarrow> int" where
  "compareTo a b = (if a < b then - 1 else if a = b then 0 else 1)"

definition compareRanges :: "Range \<Rightarrow> Range \<Rightarrow> int" where
  "compareRanges a b =
     (let startCompare = compareTo (start b) (start a)
      in if startCompare \<noteq> 0 then startCompare
         else compareTo (endOffset a) (endOffset b))"

text \<open>
  \<open>Array.prototype.sort(comparefn)\<close> is a stable sort; it is modelled as the stable
  insertion sort, which places an element before the first later element it does not
  compare greater than.
\<close>

fun insertBy :: "('a \<Rightarrow> 'a \<Rightarrow> int) \<Rightarrow> 'a \<Rightarrow> 'a list \<Rightarrow> 'a list" where
  "insertBy cmp x [] = [x]"
| "insertBy cmp x (y # ys) = (if cmp x y \<le> 0 then x # y # ys else y # insertBy cmp x ys)"

fun sortBy :: "('a \<Rightarrow> 'a \<Rightarrow> int) \<Rightarrow> 'a list \<Rightarrow> 'a list" where
  "sortBy cmp [] = []"
| "sortBy cmp (x # xs) = insertBy cmp x (sortBy cmp xs)"

text \<open>\<open>array[0]\<close>: \<open>undefined\<close> for the empty array.\<close>

definition firstElem :: "'a list \<Rightarrow> 'a option" where
  "firstElem xs = (case xs of [] \<Rightarrow> None | x # _ \<Rightarrow> Some x)"

record Selection =
  anchor :: nat
  active :: nat

text \<open>The candidates of one cursor: the tag range first, then the bracket range.\<close>

definition candidatesAt :: "string \<Rightarrow> nat \<Rightarrow> Range list" where
  "candidatesAt text position =
     (let tagRange = findEnclosingTags text position;
          bracketRange = findEnclosingBrackets text position
      in (case tagRange of None \<Rightarrow> [] | Some r \<Rightarrow> [r]) @
         (case bracketRange of None \<Rightarrow> [] | Some r \<Rightarrow> [r]))"

text \<open>\<open>candidates.filter(r => r.contains(position)).sort(compareRanges)[0]\<close>.\<close>

definition selectBest :: "nat \<Rightarrow> Range list \<Rightarrow> Range option" where
  "selectBest position candidates =
     firstElem (sortBy compareRanges (filter (\<lambda>r. containsPos r position) candidates))"

text \<open>The body of \<open>editor.selections.forEach\<close>: the selection pushed for one cursor.\<close>

definition newSelection :: "string \<Rightarrow> Selection \<Rightarrow> Selection" where
  "newSelection text selection =
     (let position = active selection;
          bestRange = selectBest position (candidatesAt text position)
      in case bestRange of
           Some r \<Rightarrow> \<lparr>anchor = start r, active = endOffset r\<rparr>
         | None \<Rightarrow> selection)"

record TextEditor =
  document :: string
  selections :: "Selection list"

text \<open>
  The command \<open>extension.selectEnclosing\<close> as a function of
  \<open>vscode.window.activeTextEditor\<close>: without an editor it returns at once; otherwise
  \<open>forEach\<close> pushes one selection for each cursor and the list replaces
  \<open>editor.selections\<close>.
\<close>

definition selectEnclosing :: "TextEditor option \<Rightarrow> TextEditor option" where
  "selectEnclosing editor =
     (case editor of
        None \<Rightarrow> None
      | Some ed \<Rightarrow>
          Some (ed\<lparr>selections :=
                  fold (\<lambda>selection newSelections.
                          newSelections @ [newSelection (document ed) selection])
                       (selections ed) []\<rparr>))"

section \<open>The state of the regular expression objects\<close>

text \<open>
  A \<open>RegExp\<close> with the \<open>g\<close> flag is an object with a mutable \<open>lastIndex\<close>: \<open>exec\<close> searches
  from it, sets it to the end of the match it finds and resets it to 0 when it finds
  none. The heap holds the \<open>lastIndex\<close> of every object by address, and the next free
  address; it is the state that outlives a call of a matcher. The tag matcher is modelled
  a second time with this heap passed through every step, as the source runs it.
\<close>

record RegExpHeap =
  lastIndexOf :: "nat \<Rightarrow> nat"
  allocated :: nat

text \<open>
  Evaluating a regular expression literal, or \<open>new RegExp(...)\<close>: a new object with
  \<open>lastIndex = 0\<close>.
\<close>

definition newRegExp :: "RegExpHeap \<Rightarrow> nat \<times> RegExpHeap" where
  "newRegExp h =
     (allocated h,
      h\<lparr>lastIndexOf := (lastIndexOf h)(allocated h := 0), allocated := allocated h + 1\<rparr>)"

definition setLastIndex :: "RegExpHeap \<Rightarrow> nat \<Rightarrow> nat \<Rightarrow> RegExpHeap" where
  "setLastIndex h re v = h\<lparr>lastIndexOf := (lastIndexOf h)(re := v)\<rparr>"

text \<open>
  The loop over \<open>openingTagRegex.exec(text)\<close> on the object at address \<open>re\<close>: each \<open>exec\<close>
  reads the \<open>lastIndex\<close> of the object and writes it back; the \<open>break\<close> leaves it at the
  end of the last match.
\<close>

function collectTagsS ::
  "string \<Rightarrow> nat \<Rightarrow> nat \<Rightarrow> TagInfo list \<Rightarrow> RegExpHeap \<Rightarrow> TagInfo list \<times> RegExpHeap" where
  "collectTagsS text offset re tags h =
     (case execOpening text (lastIndexOf h re) of
        None \<Rightarrow> (tags, setLastIndex h re 0)
      | Some (idx, nm, e) \<Rightarrow>
          (if idx > offset then (tags, setLastIndex h re e)
           else collectTagsS text offset re
                  (if nm \<noteq> [] then tags @ [\<lparr>index = idx, name = nm, tagEnd = e\<rparr>] else tags)
                  (setLastIndex h re e)))"
  by pat_completeness auto
termination
proof -
  have open_bound: "p < q \<and> q \<le> length t" if a: "openingTagAt t p = Some (n, q)" for t p n q
  proof -
    define w where "w = takeWhile isWordChar (drop (p + 1) t)"
    define rest where "rest = drop (p + 1 + length w) t"
    define attrs where "attrs = takeWhile (\<lambda>c. c \<noteq> CHR ''>'') rest"
    from a have q: "q = p + 1 + length w + length attrs + 1" and lt: "length attrs < length rest"
      by (auto simp: openingTagAt_def Let_def w_def rest_def attrs_def split: if_splits)
    from lt have "p + 1 + length w + length attrs < length t"
      by (simp add: rest_def)
    with q show ?thesis by simp
  qed
  have exec_bound: "execOpening t l = Some (i, n, q) \<Longrightarrow> l < q \<and> q \<le> length t"
    for t l i n q
  proof (induction t l rule: execOpening.induct)
    case (1 t l)
    show ?case
    proof (cases "openingTagAt t l")
      case None
      with "1.prems" have lt: "l < length t" and rec: "execOpening t (l + 1) = Some (i, n, q)"
        by (auto simp: execOpening.simps [of t l] split: if_splits)
      from "1.IH" [OF lt None rec] show ?thesis by simp
    next
      case (Some a)
      with "1.prems" open_bound [of t l] show ?thesis
        by (auto simp: execOpening.simps [of t l] split: if_splits prod.splits)
    qed
  qed
  show ?thesis
    by (relation "measure (\<lambda>(text, offset, re, tags, h). length text - lastIndexOf h re)")
       (auto simp: setLastIndex_def dest!: exec_bound)
qed

declare collectTagsS.simps [simp del]

text \<open>The loop over \<open>closingTagRegex.exec(text)\<close> on the object at address \<open>re\<close>.\<close>

function tagCloseScanS ::
  "string \<Rightarrow> string \<Rightarrow> nat \<Rightarrow> int \<Rightarrow> RegExpHeap \<Rightarrow> nat option \<times> RegExpHeap" where
  "tagCloseScanS text nm re depth h =
     (case execClosing text nm (lastIndexOf h re) of
        None \<Rightarrow> (None, setLastIndex h re 0)
      | Some (idx, e) \<Rightarrow>
          (if startsWithClose text idx e then
             (if depth - 1 = 0 then (Some idx, setLastIndex h re e)
              else tagCloseScanS text nm re (depth - 1) (setLastIndex h re e))
           else tagCloseScanS text nm re (depth + 1) (setLastIndex h re e)))"
  by pat_completeness auto
termination
proof -
  have close_bound: "p < q \<and> q \<le> length t" if a: "closingMatchAt t n p = Some q" for t n p q
  proof (cases "prefix (''</'' @ n @ ''>'') (drop p t)")
    case True
    then have "length (''</'' @ n @ ''>'') \<le> length (drop p t)"
      by (rule prefix_length_le)
    with a True show ?thesis
      by (auto simp: closingMatchAt_def)
  next
    case False
    define rest where "rest = drop (p + 1 + length n) t"
    define attrs where "attrs = takeWhile (\<lambda>c. c \<noteq> CHR ''>'') rest"
    from a False have q: "q = p + 1 + length n + length attrs + 1"
      and lt: "length attrs < length rest"
      by (auto simp: closingMatchAt_def Let_def rest_def attrs_def split: if_splits)
    from lt have "p + 1 + length n + length attrs < length t"
      by (simp add: rest_def)
    with q show ?thesis by simp
  qed
  have exec_bound: "execClosing t n l = Some (i, q) \<Longrightarrow> l < q \<and> q \<le> length t" for t n l i q
  proof (induction t n l rule: execClosing.induct)
    case (1 t n l)
    show ?case
    proof (cases "closingMatchAt t n l")
      case None
      with "1.prems" have lt: "l < length t" and rec: "execClosing t n (l + 1) = Some (i, q)"
        by (auto simp: execClosing.simps [of t n l] split: if_splits)
      from "1.IH" [OF lt None rec] show ?thesis by simp
    next
      case (Some a)
      with "1.prems" close_bound [of t n l] show ?thesis
        by (auto simp: execClosing.simps [of t n l] split: if_splits)
    qed
  qed
  show ?thesis
    by (relation "measure (\<lambda>(text, nm, re, depth, h). length text - lastIndexOf h re)")
       (auto simp: setLastIndex_def dest!: exec_bound)
qed

declare tagCloseScanS.simps [simp del]

text \<open>
  One iteration of the loop over the tags: \<open>new RegExp(...)\<close>, the assignment
  \<open>closingTagRegex.lastIndex = tag.end\<close>, the depth loop and the update of \<open>bestRange\<close>.
\<close>

definition tagStepS ::
  "string \<Rightarrow> nat \<Rightarrow> TagInfo \<Rightarrow> Range option \<Rightarrow> RegExpHeap \<Rightarrow> Range option \<times> RegExpHeap" where
  "tagStepS text offset tag bestRange h =
     (let (closingTagRegex, h1) = newRegExp h;
          h2 = setLastIndex h1 closingTagRegex (tagEnd tag);
          (found, h3) = tagCloseScanS text (name tag) closingTagRegex 1 h2
      in (case found of
            None \<Rightarrow> bestRange
          | Some idx \<Rightarrow>
              (let range = mkRange (tagEnd tag) idx in
               if containsPos range offset \<and>
                  (case bestRange of None \<Rightarrow> True | Some b \<Rightarrow> containsRange b range)
               then Some range else bestRange),
          h3))"

fun tagLoopS ::
  "string \<Rightarrow> nat \<Rightarrow> TagInfo list \<Rightarrow> nat \<Rightarrow> Range option \<Rightarrow> RegExpHeap
     \<Rightarrow> Range option \<times> RegExpHeap" where
  "tagLoopS text offset tags 0 bestRange h = (bestRange, h)"
| "tagLoopS text offset tags (Suc i) bestRange h =
     (let (bestRange', h') = tagStepS text offset (tags ! i) bestRange h
      in tagLoopS text offset tags i bestRange' h')"

text \<open>
  \<open>findEnclosingTags\<close> on a heap: the literal \<open>/<(\w+)[^>]*>/g\<close> is evaluated in the body of
  the function, so every call works on an object of its own.
\<close>

definition findEnclosingTagsS :: "string \<Rightarrow> nat \<Rightarrow> RegExpHeap \<Rightarrow> Range option \<times> RegExpHeap" where
  "findEnclosingTagsS text offset h =
     (let (openingTagRegex, h1) = newRegExp h;
          (tags, h2) = collectTagsS text offset openingTagRegex [] h1
      in tagLoopS text offset tags (length tags) None h2)"

text \<open>
  \<open>findEnclosingBrackets\<close> creates no object and has local variables only: it leaves the
  heap as it is.
\<close>

definition findEnclosingBracketsS ::
  "string \<Rightarrow> nat \<Rightarrow> RegExpHeap \<Rightarrow> Range option \<times> RegExpHeap" where
  "findEnclosingBracketsS text offset h = (findEnclosingBrackets text offset, h)"

text \<open>
  A sequence of invocations, as the command makes them for one cursor after the other:
  the tag matcher, then the bracket matcher, each on the heap the one before left.
\<close>

fun runQueries ::
  "(string \<times> nat) list \<Rightarrow> RegExpHeap \<Rightarrow> (Range option \<times> Range option) list \<times> RegExpHeap" where
  "runQueries [] h = ([], h)"
| "runQueries ((text, offset) # qs) h =
     (let (tagRange, h1) = findEnclosingTagsS text offset h;
          (bracketRange, h2) = findEnclosingBracketsS text offset h1;
          (rs, h3) = runQueries qs h2
      in ((tagRange, bracketRange) # rs, h3))"

text \<open>
  Two relations between the heap before and after a step: only the object at \<open>re\<close> may
  have changed; and every object that existed before is as it was, while new ones may
  have been created.
\<close>

definition frame :: "nat \<Rightarrow> RegExpHeap \<Rightarrow> RegExpHeap \<Rightarrow> bool" where
  "frame re h h' \<longleftrightarrow>
     allocated h' = allocated h \<and> (\<forall>a. a \<noteq> re \<longrightarrow> lastIndexOf h' a = lastIndexOf h a)"

definition extends :: "RegExpHeap \<Rightarrow> RegExpHeap \<Rightarrow> bool" where
  "extends h h' \<longleftrightarrow>
     allocated h \<le> allocated h' \<and> (\<forall>a<allocated h. lastIndexOf h' a = lastIndexOf h a)"

section \<open>Notions used to state the properties\<close>

subsection \<open>Ranking\<close>

text \<open>
  The ranking of the selector in words: \<open>a\<close> is at least as far inside as \<open>b\<close> when it
  starts later, or starts at the same offset and does not end later.
\<close>

definition moreInner :: "Range \<Rightarrow> Range \<Rightarrow> bool" where
  "moreInner a b \<longleftrightarrow> start b < start a \<or> (start a = start b \<and> endOffset a \<le> endOffset b)"

subsection \<open>Balanced bracket pairs\<close>

text \<open>\<open>text.substring(a, b)\<close> for \<open>a \<le> b\<close>.\<close>

definition segment :: "string \<Rightarrow> nat \<Rightarrow> nat \<Rightarrow> string" where
  "segment text a b = take (b - a) (drop a text)"

text \<open>Opening delimiters minus closing delimiters of one kind in a string.\<close>

definition bracketDelta :: "BracketPair \<Rightarrow> string \<Rightarrow> int" where
  "bracketDelta bp s = int (count_list s (fst bp)) - int (count_list s (snd bp))"

text \<open>The change of the depth at one character.\<close>

definition bstep :: "BracketPair \<Rightarrow> char \<Rightarrow> int" where
  "bstep bp c = (if c = fst bp then 1 else if c = snd bp then - 1 else 0)"

text \<open>
  Read from index \<open>j\<close> on with depth \<open>d\<close>, the depth first returns to zero at index
  \<open>e\<close>: it is zero once the characters \<open>j, ..., e\<close> are counted, and positive at every
  index before \<open>e\<close>.
\<close>

definition firstZero :: "string \<Rightarrow> BracketPair \<Rightarrow> nat \<Rightarrow> int \<Rightarrow> nat \<Rightarrow> bool" where
  "firstZero text bp j d e \<longleftrightarrow>
     j \<le> e \<and> e < length text \<and> d + bracketDelta bp (segment text j (e + 1)) = 0 \<and>
     (\<forall>k\<in>{j..<e}. 0 < d + bracketDelta bp (segment text j (k + 1)))"

text \<open>
  A balanced pair: an opening delimiter at \<open>i\<close>, its closing delimiter at \<open>j\<close>, and the
  depth, one just after \<open>i\<close>, first returns to zero at \<open>j\<close>.
\<close>

definition balancedPair :: "string \<Rightarrow> BracketPair \<Rightarrow> nat \<Rightarrow> nat \<Rightarrow> bool" where
  "balancedPair text bp i j \<longleftrightarrow>
     i < length text \<and> text ! i = fst bp \<and> text ! j = snd bp \<and> firstZero text bp (i + 1) 1 j"

text \<open>A balanced pair of one of the three kinds whose interior contains the offset.\<close>

definition enclosingPair :: "string \<Rightarrow> nat \<Rightarrow> nat \<Rightarrow> nat \<Rightarrow> bool" where
  "enclosingPair text offset i j \<longleftrightarrow>
     (\<exists>bp\<in>set brackets. balancedPair text bp i j) \<and> i + 1 \<le> offset \<and> offset \<le> j"

text \<open>
  The range the body of the outer loop constructs at index \<open>i\<close>, before it is tested
  against the position and \<open>bestRange\<close>.
\<close>

definition bracketCandidate :: "string \<Rightarrow> nat \<Rightarrow> Range option" where
  "bracketCandidate text i =
     (case findBracketPair (charAt text i) of
        None \<Rightarrow> None
      | Some bracketPair \<Rightarrow>
          (case closeScan text bracketPair (i + 1) 1 of
             None \<Rightarrow> None
           | Some j \<Rightarrow> Some (mkRange (i + 1) j)))"

definition acceptedAt :: "string \<Rightarrow> nat \<Rightarrow> nat \<Rightarrow> bool" where
  "acceptedAt text offset i \<longleftrightarrow>
     (\<exists>r. bracketCandidate text i = Some r \<and> containsPos r offset)"

subsection \<open>Balanced tag pairs\<close>

text \<open>A recorded tag is a match of the opening tag expression at its index.\<close>

definition wellTag :: "string \<Rightarrow> TagInfo \<Rightarrow> bool" where
  "wellTag text tag \<longleftrightarrow> openingTagAt text (index tag) = Some (name tag, tagEnd tag)"

text \<open>
  All matches the opening tag expression yields on a text, in order: what the tag matcher
  records when no match starts after the offset.
\<close>

definition allTags :: "string \<Rightarrow> TagInfo list" where
  "allTags text = collectTags text (length text) 0 []"

text \<open>The range the loop over the tags constructs for one tag.\<close>

definition tagCandidate :: "string \<Rightarrow> TagInfo \<Rightarrow> Range option" where
  "tagCandidate text tag =
     (case tagCloseScan text (name tag) (tagEnd tag) 1 of
        None \<Rightarrow> None
      | Some idx \<Rightarrow> Some (mkRange (tagEnd tag) idx))"

definition acceptedTag :: "string \<Rightarrow> nat \<Rightarrow> TagInfo \<Rightarrow> bool" where
  "acceptedTag text offset tag \<longleftrightarrow>
     (\<exists>r. tagCandidate text tag = Some r \<and> containsPos r offset)"

text \<open>
  The matches \<open>closingTagRegex.exec\<close> yields one after the other from \<open>lastIndex\<close> on,
  each as (\<open>match.index\<close>, index after the match): the loop of \<open>tagCloseScan\<close> without its
  depth counter.
\<close>

function closingTokens :: "string \<Rightarrow> string \<Rightarrow> nat \<Rightarrow> (nat \<times> nat) list" where
  "closingTokens text nm lastIndex =
     (case execClosing text nm lastIndex of
        None \<Rightarrow> []
      | Some (idx, e) \<Rightarrow> (idx, e) # closingTokens text nm e)"
  by pat_completeness auto
termination
proof -
  have close_bound: "p < q \<and> q \<le> length t" if a: "closingMatchAt t n p = Some q" for t n p q
  proof (cases "prefix (''</'' @ n @ ''>'') (drop p t)")
    case True
    then have "length (''</'' @ n @ ''>'') \<le> length (drop p t)"
      by (rule prefix_length_le)
    with a True show ?thesis
      by (auto simp: closingMatchAt_def)
  next
    case False
    define rest where "rest = drop (p + 1 + length n) t"
    define attrs where "attrs = takeWhile (\<lambda>c. c \<noteq> CHR ''>'') rest"
    from a False have q: "q = p + 1 + length n + length attrs + 1"
      and lt: "length attrs < length rest"
      by (auto simp: closingMatchAt_def Let_def rest_def attrs_def split: if_splits)
    from lt have "p + 1 + length n + length attrs < length t"
      by (simp add: rest_def)
    with q show ?thesis by simp
  qed
  have exec_bound: "execClosing t n l = Some (i, q) \<Longrightarrow> l < q \<and> q \<le> length t" for t n l i q
  proof (induction t n l rule: execClosing.induct)
    case (1 t n l)
    show ?case
    proof (cases "closingMatchAt t n l")
      case None
      with "1.prems" have lt: "l < length t" and rec: "execClosing t n (l + 1) = Some (i, q)"
        by (auto simp: execClosing.simps [of t n l] split: if_splits)
      from "1.IH" [OF lt None rec] show ?thesis by simp
    next
      case (Some a)
      with "1.prems" close_bound [of t n l] show ?thesis
        by (auto simp: execClosing.simps [of t n l] split: if_splits)
    qed
  qed
  show ?thesis
    by (relation "measure (\<lambda>(text, nm, lastIndex). length text - lastIndex)")
       (auto dest!: exec_bound)
qed

declare closingTokens.simps [simp del]

text \<open>A closing tag lowers the depth by one, any other match raises it by one.\<close>

definition tokenStep :: "string \<Rightarrow> nat \<times> nat \<Rightarrow> int" where
  "tokenStep text tok = (if startsWithClose text (fst tok) (snd tok) then - 1 else 1)"

definition tokenDepth :: "string \<Rightarrow> int \<Rightarrow> (nat \<times> nat) list \<Rightarrow> int" where
  "tokenDepth text d toks = d + sum_list (map (tokenStep text) toks)"

text \<open>
  Over a list of matches and from depth \<open>d\<close>, the depth first returns to zero at the
  match that starts at \<open>c\<close>.
\<close>

definition tokensFirstZero :: "string \<Rightarrow> (nat \<times> nat) list \<Rightarrow> int \<Rightarrow> nat \<Rightarrow> bool" where
  "tokensFirstZero text toks d c \<longleftrightarrow>
     (\<exists>k<length toks. fst (toks ! k) = c \<and> tokenDepth text d (take (Suc k) toks) = 0 \<and>
        (\<forall>k'<k. 0 < tokenDepth text d (take (Suc k') toks)))"

text \<open>The depth loop of \<open>tagCloseScan\<close> run over a given list of matches.\<close>

fun scanTokens :: "string \<Rightarrow> (nat \<times> nat) list \<Rightarrow> int \<Rightarrow> nat option" where
  "scanTokens text [] depth = None"
| "scanTokens text ((idx, e) # toks) depth =
     (if startsWithClose text idx e then
        (if depth - 1 = 0 then Some idx else scanTokens text toks (depth - 1))
      else scanTokens text toks (depth + 1))"

text \<open>
  For a tag, the depth over the matches found after its closing \<open>>\<close>, one at the start,
  first returns to zero at the match that starts at \<open>c\<close>.
\<close>

definition balancedTag :: "string \<Rightarrow> TagInfo \<Rightarrow> nat \<Rightarrow> bool" where
  "balancedTag text tag c \<longleftrightarrow>
     tokensFirstZero text (closingTokens text (name tag) (tagEnd tag)) 1 c"

text \<open>The text has the closing tag of the name at index \<open>c\<close>.\<close>

definition closingTagAt :: "string \<Rightarrow> string \<Rightarrow> nat \<Rightarrow> bool" where
  "closingTagAt text nm c \<longleftrightarrow> prefix (''</'' @ nm @ ''>'') (drop c text)"

subsection \<open>The tag search in the words of the specification\<close>

text \<open>
  The specification searches, from just after a tag, for the next occurrence of either
  another opening tag with the same name or a closing tag of the name. An occurrence at
  \<open>p\<close> is the closing tag of the name, or a match of the opening tag expression whose
  captured name is the name itself; the result is the index after the occurrence.
\<close>

definition sameNameMatchAt :: "string \<Rightarrow> string \<Rightarrow> nat \<Rightarrow> nat option" where
  "sameNameMatchAt text nm p =
     (if closingTagAt text nm p then Some (p + length nm + 3)
      else (case openingTagAt text p of
              Some (n, e) \<Rightarrow> if n = nm then Some e else None
            | None \<Rightarrow> None))"

text \<open>The occurrences one after the other, each as (index, index after it).\<close>

function sameNameTokens :: "string \<Rightarrow> string \<Rightarrow> nat \<Rightarrow> (nat \<times> nat) list" where
  "sameNameTokens text nm p =
     (if p < length text then
        (case sameNameMatchAt text nm p of
           Some e \<Rightarrow> (p, e) # sameNameTokens text nm e
         | None \<Rightarrow> sameNameTokens text nm (p + 1))
      else [])"
  by pat_completeness auto
termination
  by (relation "measure (\<lambda>(text, nm, p). length text - p)")
     (auto simp: sameNameMatchAt_def openingTagAt_def Let_def split: if_splits option.splits)

declare sameNameTokens.simps [simp del]

text \<open>
  Depth one at the start, plus one at an opening tag and minus one at a closing tag: the
  index of the closing tag at which the depth returns to zero.
\<close>

definition sameNameCloseScan :: "string \<Rightarrow> string \<Rightarrow> nat \<Rightarrow> nat option" where
  "sameNameCloseScan text nm p = scanTokens text (sameNameTokens text nm p) 1"

text \<open>
  At \<open>p\<close> the text has \<open><\<close>, the name and then one more word character: an opening tag,
  if it is one, whose name is longer than the name and starts with it.
\<close>

definition longerNameAt :: "string \<Rightarrow> string \<Rightarrow> nat \<Rightarrow> bool" where
  "longerNameAt text nm p \<longleftrightarrow>
     prefix (''<'' @ nm) (drop p text) \<and>
     (case charAt text (p + 1 + length nm) of Some c \<Rightarrow> isWordChar c | None \<Rightarrow> False)"

section \<open>Basic properties of the loops\<close>

lemma mkRange_le: "a \<le> b \<Longrightarrow> mkRange a b = \<lparr>start = a, endOffset = b\<rparr>"
  by (simp add: mkRange_def)

lemma containsPos_iff: "containsPos r p \<longleftrightarrow> start r \<le> p \<and> p \<le> endOffset r"
  by (auto simp: containsPos_def)

lemma closeScan_bounds:
  "closeScan t bp j d = Some e \<Longrightarrow> j \<le> e \<and> e < length t \<and> t ! e = snd bp"
proof (induction t bp j d rule: closeScan.induct)
  case (1 t bp j d)
  from "1.prems" have lt: "j < length t"
    by (simp add: closeScan.simps [of t bp j d] split: if_splits)
  show ?case
  proof (cases "t ! j = fst bp")
    case True
    with "1.prems" lt have "closeScan t bp (j + 1) (d + 1) = Some e"
      by (simp add: closeScan.simps [of t bp j d])
    from "1.IH"(1) [OF lt True this] show ?thesis by simp
  next
    case nopen: False
    show ?thesis
    proof (cases "t ! j = snd bp")
      case True
      show ?thesis
      proof (cases "d - 1 = 0")
        case d: True
        with "1.prems" lt nopen True show ?thesis
          by (simp add: closeScan.simps [of t bp j d])
      next
        case d: False
        with "1.prems" lt nopen True have "closeScan t bp (j + 1) (d - 1) = Some e"
          by (simp add: closeScan.simps [of t bp j d])
        from "1.IH"(2) [OF lt nopen True d this] show ?thesis by simp
      qed
    next
      case False
      with "1.prems" lt nopen have "closeScan t bp (j + 1) d = Some e"
        by (simp add: closeScan.simps [of t bp j d])
      from "1.IH"(3) [OF lt nopen False this] show ?thesis by simp
    qed
  qed
qed

lemma bracketStep_contains:
  assumes "\<And>b. best = Some b \<Longrightarrow> containsPos b offset"
    and "bracketStep t offset i best = Some r"
  shows "containsPos r offset"
  using assms
  by (auto simp: bracketStep_def Let_def split: option.splits if_splits)

lemma bracketLoop_contains:
  assumes "\<And>b. best = Some b \<Longrightarrow> containsPos b offset"
    and "bracketLoop t offset i best = Some r"
  shows "containsPos r offset"
  using assms
proof (induction i arbitrary: best)
  case 0
  then show ?case by (auto intro: bracketStep_contains)
next
  case (Suc i)
  show ?case
  proof (rule Suc.IH [of "bracketStep t offset (Suc i) best"])
    fix b assume "bracketStep t offset (Suc i) best = Some b"
    with Suc.prems(1) show "containsPos b offset"
      by (rule bracketStep_contains)
  next
    from Suc.prems(2) show "bracketLoop t offset i (bracketStep t offset (Suc i) best) = Some r"
      by simp
  qed
qed

lemma findEnclosingBrackets_contains:
  "findEnclosingBrackets t offset = Some r \<Longrightarrow> containsPos r offset"
  unfolding findEnclosingBrackets_def
  by (rule bracketLoop_contains [of None]) simp_all

lemma tagStep_contains:
  assumes "\<And>b. best = Some b \<Longrightarrow> containsPos b offset"
    and "tagStep t offset tag best = Some r"
  shows "containsPos r offset"
  using assms
  by (auto simp: tagStep_def Let_def split: option.splits if_splits)

lemma tagLoop_contains:
  assumes "\<And>b. best = Some b \<Longrightarrow> containsPos b offset"
    and "tagLoop t offset tags i best = Some r"
  shows "containsPos r offset"
  using assms
proof (induction i arbitrary: best)
  case 0
  then show ?case by simp
next
  case (Suc i)
  show ?case
  proof (rule Suc.IH [of "tagStep t offset (tags ! i) best"])
    fix b assume "tagStep t offset (tags ! i) best = Some b"
    with Suc.prems(1) show "containsPos b offset"
      by (rule tagStep_contains)
  next
    from Suc.prems(2) show "tagLoop t offset tags i (tagStep t offset (tags ! i) best) = Some r"
      by simp
  qed
qed

lemma findEnclosingTags_contains:
  "findEnclosingTags t offset = Some r \<Longrightarrow> containsPos r offset"
  unfolding findEnclosingTags_def Let_def
  by (rule tagLoop_contains [of None]) simp_all

lemma set_candidatesAt:
  "r \<in> set (candidatesAt t p) \<longleftrightarrow> findEnclosingTags t p = Some r \<or> findEnclosingBrackets t p = Some r"
  by (auto simp: candidatesAt_def Let_def split: option.splits)

lemma candidatesAt_contains:
  "r \<in> set (candidatesAt t p) \<Longrightarrow> containsPos r p"
  by (auto simp: set_candidatesAt
      dest: findEnclosingTags_contains findEnclosingBrackets_contains)

lemma candidatesAt_filter:
  "filter (\<lambda>r. containsPos r p) (candidatesAt t p) = candidatesAt t p"
  by (rule filter_True) (simp add: candidatesAt_contains)

lemma candidatesAt_Nil_iff:
  "candidatesAt t p = [] \<longleftrightarrow> findEnclosingTags t p = None \<and> findEnclosingBrackets t p = None"
  by (auto simp: candidatesAt_def Let_def split: option.splits)

lemma compareRanges_le0:
  "compareRanges a b \<le> 0 \<longleftrightarrow>
     start b < start a \<or> (start a = start b \<and> endOffset a \<le> endOffset b)"
  by (auto simp: compareRanges_def compareTo_def Let_def)

lemma set_insertBy: "set (insertBy cmp x xs) = insert x (set xs)"
  by (induction xs) auto

lemma set_sortBy: "set (sortBy cmp xs) = set xs"
  by (induction xs) (auto simp: set_insertBy)

lemma length_insertBy: "length (insertBy cmp x xs) = Suc (length xs)"
  by (induction xs) auto

lemma length_sortBy: "length (sortBy cmp xs) = length xs"
  by (induction xs) (auto simp: length_insertBy)

lemma moreInner_trans: "moreInner a b \<Longrightarrow> moreInner b c \<Longrightarrow> moreInner a c"
  by (auto simp: moreInner_def)

lemma moreInner_total: "moreInner a b \<or> moreInner b a"
  by (auto simp: moreInner_def)

lemma sorted_insertBy:
  "sorted_wrt moreInner xs \<Longrightarrow> sorted_wrt moreInner (insertBy compareRanges x xs)"
proof (induction xs)
  case Nil
  then show ?case by simp
next
  case (Cons y ys)
  show ?case
  proof (cases "compareRanges x y \<le> 0")
    case True
    then have xy: "moreInner x y" by (simp add: compareRanges_le0 moreInner_def)
    with Cons.prems have "\<forall>z\<in>set ys. moreInner x z"
      by (auto intro: moreInner_trans)
    with True xy Cons.prems show ?thesis by simp
  next
    case False
    then have "\<not> moreInner x y" by (simp add: compareRanges_le0 moreInner_def)
    with moreInner_total [of x y] have "moreInner y x" by blast
    with False Cons show ?thesis by (auto simp: set_insertBy)
  qed
qed

lemma sorted_sortBy: "sorted_wrt moreInner (sortBy compareRanges xs)"
  by (induction xs) (auto intro: sorted_insertBy)

lemma firstElem_sortBy_None: "firstElem (sortBy cmp xs) = None \<longleftrightarrow> xs = []"
proof -
  have "sortBy cmp xs = [] \<longleftrightarrow> xs = []"
    using length_sortBy [of cmp xs] by (metis length_0_conv)
  then show ?thesis by (auto simp: firstElem_def split: list.splits)
qed

lemma firstElem_sortBy_Some:
  assumes "firstElem (sortBy compareRanges xs) = Some r"
  shows "r \<in> set xs \<and> (\<forall>c\<in>set xs. moreInner r c)"
proof -
  from assms obtain ys where ys: "sortBy compareRanges xs = r # ys"
    by (auto simp: firstElem_def split: list.splits)
  have "set (r # ys) = set xs" using set_sortBy [of compareRanges xs] ys by simp
  moreover have "sorted_wrt moreInner (r # ys)" using sorted_sortBy [of xs] ys by simp
  moreover have "moreInner r r" by (simp add: moreInner_def)
  ultimately show ?thesis by auto
qed

lemma fold_push_map: "fold (\<lambda>x acc. acc @ [f x]) xs acc0 = acc0 @ map f xs"
  by (induction xs arbitrary: acc0) auto

lemma selectEnclosing_Some:
  "selectEnclosing (Some ed) =
     Some (ed\<lparr>selections := map (newSelection (document ed)) (selections ed)\<rparr>)"
  by (simp add: selectEnclosing_def fold_push_map)

section \<open>Properties of the bracket matcher\<close>

lemma segment_Cons:
  "j < length t \<Longrightarrow> j \<le> k \<Longrightarrow> segment t j (Suc k) = t ! j # segment t (Suc j) (Suc k)"
  by (simp add: segment_def Suc_diff_le flip: Cons_nth_drop_Suc)

lemma segment_single: "j < length t \<Longrightarrow> segment t j (Suc j) = [t ! j]"
  by (simp add: segment_def flip: Cons_nth_drop_Suc)

lemma bracketDelta_Cons:
  "fst bp \<noteq> snd bp \<Longrightarrow> bracketDelta bp (c # s) = bstep bp c + bracketDelta bp s"
  by (auto simp: bracketDelta_def bstep_def)

lemma bracketDelta_Nil: "bracketDelta bp [] = 0"
  by (simp add: bracketDelta_def)

lemma firstZero_unfold:
  assumes ne: "fst bp \<noteq> snd bp" and lt: "j < length t"
  shows "firstZero t bp j d e \<longleftrightarrow>
     (e = j \<and> d + bstep bp (t ! j) = 0) \<or>
     (0 < d + bstep bp (t ! j) \<and> firstZero t bp (j + 1) (d + bstep bp (t ! j)) e)"
proof (cases "e \<le> j")
  case True
  with lt show ?thesis
    by (auto simp: firstZero_def segment_single bracketDelta_Cons [OF ne] bracketDelta_Nil)
next
  case False
  then have je: "j < e" by simp
  have seg: "bracketDelta bp (segment t j (Suc k)) =
      bstep bp (t ! j) + bracketDelta bp (segment t (Suc j) (Suc k))" if "j \<le> k" for k
    using that lt by (simp add: segment_Cons bracketDelta_Cons [OF ne])
  have split: "{j..<e} = insert j {Suc j..<e}"
    using je by auto
  have first: "bracketDelta bp (segment t j (Suc j)) = bstep bp (t ! j)"
    using lt by (simp add: segment_single bracketDelta_Cons [OF ne] bracketDelta_Nil)
  show ?thesis
    using je by (auto simp: firstZero_def split first seg add.assoc)
qed

lemma closeScan_iff:
  assumes "fst bp \<noteq> snd bp" and "1 \<le> d"
  shows "closeScan t bp j d = Some e \<longleftrightarrow> firstZero t bp j d e"
  using assms
proof (induction t bp j d rule: closeScan.induct)
  case (1 t bp j d)
  note ne = "1.prems"(1) and d = "1.prems"(2)
  show ?case
  proof (cases "j < length t")
    case False
    then show ?thesis
      by (simp add: closeScan.simps [of t bp j d] firstZero_def)
  next
    case lt: True
    note unf = firstZero_unfold [OF ne lt, of d e]
    show ?thesis
    proof (cases "t ! j = fst bp")
      case True
      from "1.IH"(1) [OF lt True ne] d
      have "closeScan t bp (j + 1) (d + 1) = Some e \<longleftrightarrow> firstZero t bp (j + 1) (d + 1) e"
        by simp
      with lt True d show ?thesis
        by (simp add: closeScan.simps [of t bp j d] unf bstep_def)
    next
      case nopen: False
      show ?thesis
      proof (cases "t ! j = snd bp")
        case True
        show ?thesis
        proof (cases "d - 1 = 0")
          case z: True
          then have d1: "d = 1" by simp
          from lt nopen True have "closeScan t bp j 1 = Some e \<longleftrightarrow> e = j"
            by (auto simp: closeScan.simps [of t bp j 1])
          with lt nopen True d1 show ?thesis
            using firstZero_unfold [OF ne lt, of 1 e] by (auto simp: bstep_def)
        next
          case z: False
          from "1.IH"(2) [OF lt nopen True z ne] d z
          have "closeScan t bp (j + 1) (d - 1) = Some e \<longleftrightarrow> firstZero t bp (j + 1) (d - 1) e"
            by simp
          with lt nopen True d z show ?thesis
            by (auto simp: closeScan.simps [of t bp j d] unf bstep_def)
        qed
      next
        case False
        from "1.IH"(3) [OF lt nopen False ne d]
        have "closeScan t bp (j + 1) d = Some e \<longleftrightarrow> firstZero t bp (j + 1) d e" .
        with lt nopen False d show ?thesis
          by (auto simp: closeScan.simps [of t bp j d] unf bstep_def)
      qed
    qed
  qed
qed

lemma bracketStep_candidate:
  "bracketStep t offset i best =
     (case bracketCandidate t i of
        None \<Rightarrow> best
      | Some rg \<Rightarrow>
          if containsPos rg offset \<and>
             (case best of None \<Rightarrow> True | Some b \<Rightarrow> containsRange b rg)
          then Some rg else best)"
  by (simp add: bracketStep_def bracketCandidate_def Let_def split: option.splits)

lemma brackets_distinct: "bp \<in> set brackets \<Longrightarrow> fst bp \<noteq> snd bp"
  by (auto simp: brackets_def)

lemma find_fst_iff:
  "distinct (map fst xs) \<Longrightarrow>
     find (\<lambda>pair. fst pair = c) xs = Some bp \<longleftrightarrow> bp \<in> set xs \<and> fst bp = c"
  by (induction xs) (auto simp: rev_image_eqI)

lemma findBracketPair_iff:
  "findBracketPair (charAt t i) = Some bp \<longleftrightarrow> i < length t \<and> bp \<in> set brackets \<and> t ! i = fst bp"
proof -
  have "distinct (map fst brackets)" by (simp add: brackets_def)
  from find_fst_iff [OF this] show ?thesis
    by (auto simp: findBracketPair_def charAt_def)
qed

lemma bracketCandidate_iff:
  "bracketCandidate t i = Some r \<longleftrightarrow>
     (\<exists>bp\<in>set brackets. \<exists>j. balancedPair t bp i j \<and> r = \<lparr>start = i + 1, endOffset = j\<rparr>)"
proof
  assume "bracketCandidate t i = Some r"
  then obtain bp j where bp: "findBracketPair (charAt t i) = Some bp"
    and j: "closeScan t bp (i + 1) 1 = Some j" and r: "r = mkRange (i + 1) j"
    by (auto simp: bracketCandidate_def split: option.splits)
  from bp have mem: "bp \<in> set brackets" and i: "i < length t" "t ! i = fst bp"
    by (simp_all add: findBracketPair_iff)
  from closeScan_bounds [OF j] have b: "i + 1 \<le> j" "t ! j = snd bp" by simp_all
  from j have "firstZero t bp (i + 1) 1 j"
    by (simp add: closeScan_iff [OF brackets_distinct [OF mem]])
  with i b have "balancedPair t bp i j" by (simp add: balancedPair_def)
  moreover from r b have "r = \<lparr>start = i + 1, endOffset = j\<rparr>" by (simp add: mkRange_le)
  ultimately show "\<exists>bp\<in>set brackets. \<exists>j. balancedPair t bp i j \<and> r = \<lparr>start = i + 1, endOffset = j\<rparr>"
    using mem by blast
next
  assume "\<exists>bp\<in>set brackets. \<exists>j. balancedPair t bp i j \<and> r = \<lparr>start = i + 1, endOffset = j\<rparr>"
  then obtain bp j where mem: "bp \<in> set brackets" and bal: "balancedPair t bp i j"
    and r: "r = \<lparr>start = i + 1, endOffset = j\<rparr>" by blast
  from bal mem have bp: "findBracketPair (charAt t i) = Some bp"
    by (simp add: findBracketPair_iff balancedPair_def)
  from bal have j: "closeScan t bp (i + 1) 1 = Some j"
    by (simp add: closeScan_iff [OF brackets_distinct [OF mem]] balancedPair_def)
  from closeScan_bounds [OF j] have "i + 1 \<le> j" by simp
  with bp j r show "bracketCandidate t i = Some r"
    by (simp add: bracketCandidate_def mkRange_le)
qed

lemma bracketCandidate_start: "bracketCandidate t i = Some r \<Longrightarrow> start r = i + 1"
  by (auto simp: bracketCandidate_iff)

lemma bracketCandidate_order: "bracketCandidate t i = Some r \<Longrightarrow> start r \<le> endOffset r"
  by (auto simp: bracketCandidate_iff balancedPair_def firstZero_def)

lemma enclosingPair_iff:
  "enclosingPair t offset i j \<longleftrightarrow>
     bracketCandidate t i = Some \<lparr>start = i + 1, endOffset = j\<rparr> \<and>
     containsPos \<lparr>start = i + 1, endOffset = j\<rparr> offset"
  by (auto simp: enclosingPair_def bracketCandidate_iff containsPos_iff)

lemma bracketLoop_keep:
  assumes "n + 1 < start b"
  shows "bracketLoop t offset n (Some b) = Some b"
  using assms
proof (induction n)
  case 0
  then show ?case
    by (auto simp: bracketStep_candidate containsRange_def containsPos_iff
        dest: bracketCandidate_start split: option.splits)
next
  case (Suc n)
  then have "bracketStep t offset (Suc n) (Some b) = Some b"
    by (auto simp: bracketStep_candidate containsRange_def containsPos_iff
        dest: bracketCandidate_start split: option.splits)
  with Suc show ?case by simp
qed

lemma bracketStep_None:
  "bracketStep t offset i None =
     (case bracketCandidate t i of None \<Rightarrow> None
      | Some r \<Rightarrow> if containsPos r offset then Some r else None)"
  by (simp add: bracketStep_candidate split: option.splits)

lemma bracketLoop_result:
  "(bracketLoop t offset n None = None \<longrightarrow> (\<forall>i\<le>n. \<not> acceptedAt t offset i)) \<and>
   (\<forall>r. bracketLoop t offset n None = Some r \<longrightarrow>
      (\<exists>i\<le>n. bracketCandidate t i = Some r \<and> containsPos r offset \<and>
         (\<forall>i'. i < i' \<and> i' \<le> n \<longrightarrow> \<not> acceptedAt t offset i')))"
proof (induction n)
  case 0
  show ?case
    by (auto simp: bracketStep_None acceptedAt_def split: option.splits if_splits)
next
  case (Suc n)
  show ?case
  proof (cases "acceptedAt t offset (Suc n)")
    case True
    then obtain r0 where r0: "bracketCandidate t (Suc n) = Some r0" "containsPos r0 offset"
      by (auto simp: acceptedAt_def)
    then have step: "bracketStep t offset (Suc n) None = Some r0"
      by (simp add: bracketStep_None)
    from r0 have "n + 1 < start r0"
      by (simp add: bracketCandidate_start)
    then have "bracketLoop t offset (Suc n) None = Some r0"
      by (simp add: step bracketLoop_keep)
    with r0 show ?thesis by auto
  next
    case False
    then have step: "bracketStep t offset (Suc n) None = None"
      by (auto simp: bracketStep_None acceptedAt_def split: option.splits)
    then have eq: "bracketLoop t offset (Suc n) None = bracketLoop t offset n None"
      by simp
    from Suc.IH have none: "bracketLoop t offset n None = None \<longrightarrow>
        (\<forall>i\<le>n. \<not> acceptedAt t offset i)"
      and some: "\<And>r. bracketLoop t offset n None = Some r \<Longrightarrow>
        \<exists>i\<le>n. bracketCandidate t i = Some r \<and> containsPos r offset \<and>
          (\<forall>i'. i < i' \<and> i' \<le> n \<longrightarrow> \<not> acceptedAt t offset i')"
      by blast+
    have "\<exists>i\<le>Suc n. bracketCandidate t i = Some r \<and> containsPos r offset \<and>
          (\<forall>i'. i < i' \<and> i' \<le> Suc n \<longrightarrow> \<not> acceptedAt t offset i')"
      if "bracketLoop t offset n None = Some r" for r
    proof -
      from some [OF that] obtain i where i: "i \<le> n" "bracketCandidate t i = Some r"
        "containsPos r offset" "\<forall>i'. i < i' \<and> i' \<le> n \<longrightarrow> \<not> acceptedAt t offset i'"
        by blast
      from i(4) False have "\<forall>i'. i < i' \<and> i' \<le> Suc n \<longrightarrow> \<not> acceptedAt t offset i'"
        by (auto simp: le_Suc_eq)
      with i show ?thesis by (meson le_SucI)
    qed
    with none False show ?thesis
      unfolding eq by (auto simp: le_Suc_eq)
  qed
qed

lemma acceptedAt_lt: "acceptedAt t offset i \<Longrightarrow> i < offset"
  by (auto simp: acceptedAt_def containsPos_iff dest: bracketCandidate_start)

lemma findEnclosingBrackets_None_iff:
  "findEnclosingBrackets t offset = None \<longleftrightarrow> (\<forall>i. \<not> acceptedAt t offset i)"
proof
  assume "findEnclosingBrackets t offset = None"
  with bracketLoop_result [of t offset offset] have "\<forall>i\<le>offset. \<not> acceptedAt t offset i"
    by (simp add: findEnclosingBrackets_def)
  then show "\<forall>i. \<not> acceptedAt t offset i"
    using acceptedAt_lt [of t offset] by (metis less_imp_le_nat)
next
  assume none: "\<forall>i. \<not> acceptedAt t offset i"
  show "findEnclosingBrackets t offset = None"
  proof (cases "findEnclosingBrackets t offset")
    case None
    then show ?thesis .
  next
    case (Some r)
    with bracketLoop_result [of t offset offset] none show ?thesis
      by (auto simp: findEnclosingBrackets_def acceptedAt_def)
  qed
qed

lemma findEnclosingBrackets_Some:
  assumes "findEnclosingBrackets t offset = Some r"
  shows "\<exists>i. bracketCandidate t i = Some r \<and> containsPos r offset \<and>
           (\<forall>i'. acceptedAt t offset i' \<longrightarrow> i' \<le> i)"
proof -
  from assms bracketLoop_result [of t offset offset]
  obtain i where i: "i \<le> offset" "bracketCandidate t i = Some r" "containsPos r offset"
    and mx: "\<forall>i'. i < i' \<and> i' \<le> offset \<longrightarrow> \<not> acceptedAt t offset i'"
    by (auto simp: findEnclosingBrackets_def)
  have "i' \<le> i" if "acceptedAt t offset i'" for i'
    using mx that acceptedAt_lt [OF that] by (meson less_imp_le_nat not_le)
  with i show ?thesis by blast
qed

lemma acceptedAt_iff: "acceptedAt t offset i \<longleftrightarrow> (\<exists>j. enclosingPair t offset i j)"
proof
  assume "acceptedAt t offset i"
  then obtain r where r: "bracketCandidate t i = Some r" "containsPos r offset"
    by (auto simp: acceptedAt_def)
  from r(1) have "r = \<lparr>start = i + 1, endOffset = endOffset r\<rparr>"
    using bracketCandidate_start [OF r(1)] by simp
  with r have "enclosingPair t offset i (endOffset r)"
    by (simp add: enclosingPair_iff)
  then show "\<exists>j. enclosingPair t offset i j" ..
next
  assume "\<exists>j. enclosingPair t offset i j"
  then show "acceptedAt t offset i"
    by (auto simp: enclosingPair_iff acceptedAt_def)
qed

lemma findEnclosingBrackets_Some_pair:
  assumes "findEnclosingBrackets t offset = Some r"
  shows "\<exists>i j. r = \<lparr>start = i + 1, endOffset = j\<rparr> \<and> enclosingPair t offset i j \<and>
           (\<forall>i' j'. enclosingPair t offset i' j' \<longrightarrow> i' < i \<or> (i' = i \<and> j' = j))"
proof -
  from findEnclosingBrackets_Some [OF assms] obtain i
    where i: "bracketCandidate t i = Some r" "containsPos r offset"
      and mx: "\<forall>i'. acceptedAt t offset i' \<longrightarrow> i' \<le> i" by blast
  from bracketCandidate_start [OF i(1)] have r: "r = \<lparr>start = i + 1, endOffset = endOffset r\<rparr>"
    by simp
  with i have enc: "enclosingPair t offset i (endOffset r)"
    by (simp add: enclosingPair_iff)
  have "i' < i \<or> (i' = i \<and> j' = endOffset r)" if e: "enclosingPair t offset i' j'" for i' j'
  proof (cases "i' = i")
    case True
    with e i(1) have "Some \<lparr>start = i + 1, endOffset = j'\<rparr> = Some r"
      by (simp add: enclosingPair_iff)
    then have "j' = endOffset r" by auto
    with True show ?thesis by simp
  next
    case False
    from e have "acceptedAt t offset i'" by (auto simp: acceptedAt_iff)
    with mx have "i' \<le> i" by simp
    with False show ?thesis by simp
  qed
  with r enc show ?thesis by blast
qed

lemma ex_nested: "findEnclosingBrackets ''{ [ ( x ) ] }'' 6 = Some \<lparr>start = 5, endOffset = 8\<rparr>"
  by code_simp

lemma findEnclosingBrackets_balanced:
  assumes "findEnclosingBrackets t offset = Some r"
  shows "\<exists>bp\<in>set brackets. \<exists>i. start r = i + 1 \<and> balancedPair t bp i (endOffset r)"
proof -
  from findEnclosingBrackets_Some [OF assms] obtain i where "bracketCandidate t i = Some r"
    by blast
  then show ?thesis by (auto simp: bracketCandidate_iff)
qed

lemma ex_nested_pairs:
  "enclosingPair ''{ [ ( x ) ] }'' 6 4 8 \<and> enclosingPair ''{ [ ( x ) ] }'' 6 2 10 \<and>
   enclosingPair ''{ [ ( x ) ] }'' 6 0 12"
  by (simp add: enclosingPair_iff containsPos_iff) code_simp

lemma bracketCandidate_None:
  assumes bp: "findBracketPair (charAt t i) = Some bp" and no: "\<forall>j. \<not> balancedPair t bp i j"
  shows "bracketCandidate t i = None"
proof (cases "bracketCandidate t i")
  case None
  then show ?thesis .
next
  case (Some r)
  then obtain bp' j where mem: "bp' \<in> set brackets" and bal: "balancedPair t bp' i j"
    by (auto simp: bracketCandidate_iff)
  from bal mem have "findBracketPair (charAt t i) = Some bp'"
    by (simp add: findBracketPair_iff balancedPair_def)
  with bp bal no show ?thesis by simp
qed

lemma findEnclosingBrackets_start:
  assumes "findEnclosingBrackets t offset = Some r" and "start r = i + 1"
  shows "bracketCandidate t i = Some r"
proof -
  from findEnclosingBrackets_Some [OF assms(1)] obtain i' where i': "bracketCandidate t i' = Some r"
    by blast
  from bracketCandidate_start [OF this] assms(2) have "i' = i" by simp
  with i' show ?thesis by simp
qed

lemma bracketCandidate_at_start:
  assumes c: "bracketCandidate t i = Some r"
  shows "findEnclosingBrackets t (start r) = Some r"
proof -
  from c have st: "start r = i + 1" by (rule bracketCandidate_start)
  from c have ord: "start r \<le> endOffset r" by (rule bracketCandidate_order)
  from st ord have acc: "acceptedAt t (start r) i"
    using c by (auto simp: acceptedAt_def containsPos_iff)
  then have "findEnclosingBrackets t (start r) \<noteq> None"
    by (auto simp: findEnclosingBrackets_None_iff)
  then obtain r' where r': "findEnclosingBrackets t (start r) = Some r'" by auto
  from findEnclosingBrackets_Some [OF this] obtain i'
    where i': "bracketCandidate t i' = Some r'" "containsPos r' (start r)"
      and mx: "\<forall>k. acceptedAt t (start r) k \<longrightarrow> k \<le> i'" by blast
  from mx acc have "i \<le> i'" by simp
  moreover from i' st have "i' + 1 \<le> i + 1"
    using bracketCandidate_start [OF i'(1)] by (simp add: containsPos_iff)
  ultimately have "i' = i" by simp
  with i'(1) c r' show ?thesis by simp
qed

lemma bracketCandidate_at_end:
  assumes c: "bracketCandidate t i = Some r"
  shows "\<exists>r'. findEnclosingBrackets t (endOffset r) = Some r' \<and> start r \<le> start r'"
proof -
  from c have st: "start r = i + 1" by (rule bracketCandidate_start)
  from c have ord: "start r \<le> endOffset r" by (rule bracketCandidate_order)
  from st ord have acc: "acceptedAt t (endOffset r) i"
    using c by (auto simp: acceptedAt_def containsPos_iff)
  then have "findEnclosingBrackets t (endOffset r) \<noteq> None"
    by (auto simp: findEnclosingBrackets_None_iff)
  then obtain r' where r': "findEnclosingBrackets t (endOffset r) = Some r'" by auto
  from findEnclosingBrackets_Some [OF this] obtain i'
    where i': "bracketCandidate t i' = Some r'"
      and mx: "\<forall>k. acceptedAt t (endOffset r) k \<longrightarrow> k \<le> i'" by blast
  from mx acc have "i \<le> i'" by simp
  with st bracketCandidate_start [OF i'] have "start r \<le> start r'" by simp
  with r' show ?thesis by blast
qed

section \<open>Properties of the tag matcher\<close>

lemma openingTagAt_Some:
  assumes "openingTagAt t p = Some (nm, q)"
  shows "p < q \<and> q \<le> length t \<and> nm \<noteq> [] \<and> (\<forall>c\<in>set nm. isWordChar c) \<and>
         charAt t p = Some CHR ''<''"
proof -
  define w where "w = takeWhile isWordChar (drop (p + 1) t)"
  define rest where "rest = drop (p + 1 + length w) t"
  define attrs where "attrs = takeWhile (\<lambda>c. c \<noteq> CHR ''>'') rest"
  from assms have c: "charAt t p = Some CHR ''<''" and nm: "nm = w" "w \<noteq> []"
    and q: "q = p + 1 + length w + length attrs + 1" and lt: "length attrs < length rest"
    by (auto simp: openingTagAt_def Let_def w_def rest_def attrs_def split: if_splits)
  from lt have "p + 1 + length w + length attrs < length t"
    by (simp add: rest_def)
  moreover have "\<forall>c\<in>set w. isWordChar c"
    unfolding w_def by (auto dest: set_takeWhileD)
  ultimately show ?thesis using c nm q by simp
qed

lemma execOpening_Some:
  "execOpening t l = Some (i, nm, q) \<Longrightarrow> l \<le> i \<and> openingTagAt t i = Some (nm, q)"
proof (induction t l rule: execOpening.induct)
  case (1 t l)
  show ?case
  proof (cases "openingTagAt t l")
    case None
    with "1.prems" have lt: "l < length t" and rec: "execOpening t (l + 1) = Some (i, nm, q)"
      by (auto simp: execOpening.simps [of t l] split: if_splits)
    from "1.IH" [OF lt None rec] show ?thesis by simp
  next
    case (Some a)
    with "1.prems" show ?thesis
      by (auto simp: execOpening.simps [of t l] split: if_splits prod.splits)
  qed
qed

lemma execOpening_bounds:
  "execOpening t l = Some (i, nm, q) \<Longrightarrow> l \<le> i \<and> i < q \<and> q \<le> length t \<and> nm \<noteq> []"
  using execOpening_Some [of t l i nm q] openingTagAt_Some [of t i nm q] by simp

lemma collectTags_unfold:
  "collectTags t offset l acc =
     (case execOpening t l of
        None \<Rightarrow> acc
      | Some (idx, nm, e) \<Rightarrow>
          if idx > offset then acc
          else collectTags t offset e (acc @ [\<lparr>index = idx, name = nm, tagEnd = e\<rparr>]))"
  by (subst collectTags.simps) (auto split: option.splits dest: execOpening_bounds)

lemma collectTags_acc:
  "collectTags t offset l acc = acc @ collectTags t offset l []"
proof (induction "length t - l" arbitrary: l acc rule: less_induct)
  case less
  show ?case
  proof (cases "execOpening t l")
    case None
    then show ?thesis by (simp add: collectTags_unfold [of t offset l])
  next
    case (Some a)
    obtain idx nm e where a: "a = (idx, nm, e)" by (cases a)
    show ?thesis
    proof (cases "idx > offset")
      case True
      with Some a show ?thesis by (simp add: collectTags_unfold [of t offset l])
    next
      case False
      from execOpening_bounds [of t l idx nm e] Some a have "length t - e < length t - l"
        by auto
      note IH = less.hyps [OF this]
      from Some a False IH [of "acc @ [\<lparr>index = idx, name = nm, tagEnd = e\<rparr>]"]
        IH [of "[\<lparr>index = idx, name = nm, tagEnd = e\<rparr>]"]
      show ?thesis
        by (simp add: collectTags_unfold [of t offset l])
    qed
  qed
qed

lemma collectTags_Nil_unfold:
  "collectTags t offset l [] =
     (case execOpening t l of
        None \<Rightarrow> []
      | Some (idx, nm, e) \<Rightarrow>
          if idx > offset then []
          else \<lparr>index = idx, name = nm, tagEnd = e\<rparr> # collectTags t offset e [])"
  by (subst collectTags_unfold, subst collectTags_acc) (simp split: option.splits)

lemma collectTags_props:
  "(\<forall>tag\<in>set (collectTags t offset l []).
      l \<le> index tag \<and> index tag \<le> offset \<and> wellTag t tag) \<and>
   sorted_wrt (\<lambda>a b. tagEnd a \<le> index b) (collectTags t offset l [])"
proof (induction "length t - l" arbitrary: l rule: less_induct)
  case less
  show ?case
  proof (cases "execOpening t l")
    case None
    then show ?thesis by (simp add: collectTags_Nil_unfold [of t offset l])
  next
    case (Some a)
    obtain idx nm e where a: "a = (idx, nm, e)" by (cases a)
    show ?thesis
    proof (cases "idx > offset")
      case True
      with Some a show ?thesis by (simp add: collectTags_Nil_unfold [of t offset l])
    next
      case False
      from execOpening_bounds [of t l idx nm e] Some a
      have b: "l \<le> idx" "idx < e" "e \<le> length t" by auto
      then have "length t - e < length t - l" by auto
      note IH = less.hyps [OF this]
      from execOpening_Some [of t l idx nm e] Some a
      have w: "wellTag t \<lparr>index = idx, name = nm, tagEnd = e\<rparr>"
        by (simp add: wellTag_def)
      from Some a False IH b w show ?thesis
        by (auto simp: collectTags_Nil_unfold [of t offset l])
    qed
  qed
qed

lemma collectTags_takeWhile:
  "collectTags t offset l [] =
     takeWhile (\<lambda>tag. index tag \<le> offset) (collectTags t (length t) l [])"
proof (induction "length t - l" arbitrary: l rule: less_induct)
  case less
  show ?case
  proof (cases "execOpening t l")
    case None
    then show ?thesis
      by (simp add: collectTags_Nil_unfold [of t offset l] collectTags_Nil_unfold [of t "length t" l])
  next
    case (Some a)
    obtain idx nm e where a: "a = (idx, nm, e)" by (cases a)
    from execOpening_bounds [of t l idx nm e] Some a
    have b: "l \<le> idx" "idx < e" "e \<le> length t" by auto
    then have "length t - e < length t - l" by auto
    note IH = less.hyps [OF this]
    from Some a b IH show ?thesis
      by (simp add: collectTags_Nil_unfold [of t offset l] collectTags_Nil_unfold [of t "length t" l])
  qed
qed

lemma closingMatchAt_Some:
  assumes a: "closingMatchAt t n p = Some q"
  shows "p < q \<and> q \<le> length t"
proof (cases "prefix (''</'' @ n @ ''>'') (drop p t)")
  case True
  then have "length (''</'' @ n @ ''>'') \<le> length (drop p t)"
    by (rule prefix_length_le)
  with a True show ?thesis
    by (auto simp: closingMatchAt_def)
next
  case False
  define rest where "rest = drop (p + 1 + length n) t"
  define attrs where "attrs = takeWhile (\<lambda>c. c \<noteq> CHR ''>'') rest"
  from a False have q: "q = p + 1 + length n + length attrs + 1"
    and lt: "length attrs < length rest"
    by (auto simp: closingMatchAt_def Let_def rest_def attrs_def split: if_splits)
  from lt have "p + 1 + length n + length attrs < length t"
    by (simp add: rest_def)
  with q show ?thesis by simp
qed

lemma execClosing_Some:
  "execClosing t n l = Some (i, q) \<Longrightarrow> l \<le> i \<and> closingMatchAt t n i = Some q"
proof (induction t n l rule: execClosing.induct)
  case (1 t n l)
  show ?case
  proof (cases "closingMatchAt t n l")
    case None
    with "1.prems" have lt: "l < length t" and rec: "execClosing t n (l + 1) = Some (i, q)"
      by (auto simp: execClosing.simps [of t n l] split: if_splits)
    from "1.IH" [OF lt None rec] show ?thesis by simp
  next
    case (Some a)
    with "1.prems" show ?thesis
      by (auto simp: execClosing.simps [of t n l] split: if_splits)
  qed
qed

lemma execClosing_bounds:
  "execClosing t n l = Some (i, q) \<Longrightarrow> l \<le> i \<and> i < q \<and> q \<le> length t"
  using execClosing_Some [of t n l i q] closingMatchAt_Some [of t n i q] by simp

lemma tagCloseScan_Some:
  "tagCloseScan t n l d = Some c \<Longrightarrow>
     l \<le> c \<and> (\<exists>e. closingMatchAt t n c = Some e \<and> startsWithClose t c e)"
proof (induction t n l d rule: tagCloseScan.induct)
  case (1 t n l d)
  from "1.prems" obtain idx e where ex: "execClosing t n l = Some (idx, e)"
    by (auto simp: tagCloseScan.simps [of t n l d] split: option.splits)
  note b = execClosing_bounds [OF ex] and m = execClosing_Some [OF ex]
  show ?case
  proof (cases "startsWithClose t idx e")
    case True
    show ?thesis
    proof (cases "d - 1 = 0")
      case z: True
      with "1.prems" ex True have "c = idx"
        by (simp add: tagCloseScan.simps [of t n l d])
      with b m True show ?thesis by auto
    next
      case z: False
      with "1.prems" ex True have "tagCloseScan t n e (d - 1) = Some c"
        by (simp add: tagCloseScan.simps [of t n l d])
      from "1.IH"(1) [OF ex refl True z this] b show ?thesis by auto
    qed
  next
    case False
    with "1.prems" ex have "tagCloseScan t n e (d + 1) = Some c"
      by (simp add: tagCloseScan.simps [of t n l d])
    from "1.IH"(2) [OF ex refl False this] b show ?thesis by auto
  qed
qed

lemma tagCandidate_Some:
  assumes "tagCandidate t tag = Some r"
  shows "start r = tagEnd tag \<and> tagCloseScan t (name tag) (tagEnd tag) 1 = Some (endOffset r) \<and>
         tagEnd tag \<le> endOffset r"
proof -
  from assms obtain c where c: "tagCloseScan t (name tag) (tagEnd tag) 1 = Some c"
    and r: "r = mkRange (tagEnd tag) c"
    by (auto simp: tagCandidate_def split: option.splits)
  from tagCloseScan_Some [OF c] have "tagEnd tag \<le> c" by simp
  with c r show ?thesis by (simp add: mkRange_le)
qed

lemma tagStep_candidate:
  "tagStep t offset tag best =
     (case tagCandidate t tag of
        None \<Rightarrow> best
      | Some rg \<Rightarrow>
          if containsPos rg offset \<and>
             (case best of None \<Rightarrow> True | Some b \<Rightarrow> containsRange b rg)
          then Some rg else best)"
  by (simp add: tagStep_def tagCandidate_def Let_def split: option.splits)

lemma tagStep_None:
  "tagStep t offset tag None =
     (case tagCandidate t tag of None \<Rightarrow> None
      | Some r \<Rightarrow> if containsPos r offset then Some r else None)"
  by (simp add: tagStep_candidate split: option.splits)

lemma tagLoop_keep:
  assumes "\<forall>k<n. tagEnd (tags ! k) < start b"
  shows "tagLoop t offset tags n (Some b) = Some b"
  using assms
proof (induction n)
  case 0
  then show ?case by simp
next
  case (Suc n)
  then have "tagEnd (tags ! n) < start b" by simp
  then have "tagStep t offset (tags ! n) (Some b) = Some b"
    by (auto simp: tagStep_candidate containsRange_def containsPos_iff
        dest: tagCandidate_Some split: option.splits)
  with Suc show ?case by simp
qed

lemma tagLoop_result:
  assumes inc: "\<forall>k l. k < l \<and> l < n \<longrightarrow> tagEnd (tags ! k) < tagEnd (tags ! l)"
  shows "(tagLoop t offset tags n None = None \<longrightarrow> (\<forall>k<n. \<not> acceptedTag t offset (tags ! k))) \<and>
   (\<forall>r. tagLoop t offset tags n None = Some r \<longrightarrow>
      (\<exists>k<n. tagCandidate t (tags ! k) = Some r \<and> containsPos r offset \<and>
         (\<forall>k'. k < k' \<and> k' < n \<longrightarrow> \<not> acceptedTag t offset (tags ! k'))))"
  using inc
proof (induction n)
  case 0
  show ?case by simp
next
  case (Suc n)
  from Suc.prems have inc': "\<forall>k l. k < l \<and> l < n \<longrightarrow> tagEnd (tags ! k) < tagEnd (tags ! l)"
    by simp
  note IH = Suc.IH [OF inc']
  show ?case
  proof (cases "acceptedTag t offset (tags ! n)")
    case True
    then obtain r0 where r0: "tagCandidate t (tags ! n) = Some r0" "containsPos r0 offset"
      by (auto simp: acceptedTag_def)
    then have step: "tagStep t offset (tags ! n) None = Some r0"
      by (simp add: tagStep_None)
    from r0 have "start r0 = tagEnd (tags ! n)"
      by (simp add: tagCandidate_Some)
    with Suc.prems have "\<forall>k<n. tagEnd (tags ! k) < start r0" by simp
    then have "tagLoop t offset tags (Suc n) None = Some r0"
      by (simp add: step tagLoop_keep)
    with r0 show ?thesis by auto
  next
    case False
    then have step: "tagStep t offset (tags ! n) None = None"
      by (auto simp: tagStep_None acceptedTag_def split: option.splits)
    then have eq: "tagLoop t offset tags (Suc n) None = tagLoop t offset tags n None"
      by simp
    from IH have none: "tagLoop t offset tags n None = None \<longrightarrow>
        (\<forall>k<n. \<not> acceptedTag t offset (tags ! k))"
      and some: "\<And>r. tagLoop t offset tags n None = Some r \<Longrightarrow>
        \<exists>k<n. tagCandidate t (tags ! k) = Some r \<and> containsPos r offset \<and>
          (\<forall>k'. k < k' \<and> k' < n \<longrightarrow> \<not> acceptedTag t offset (tags ! k'))"
      by blast+
    have "\<exists>k<Suc n. tagCandidate t (tags ! k) = Some r \<and> containsPos r offset \<and>
          (\<forall>k'. k < k' \<and> k' < Suc n \<longrightarrow> \<not> acceptedTag t offset (tags ! k'))"
      if "tagLoop t offset tags n None = Some r" for r
    proof -
      from some [OF that] obtain k where k: "k < n" "tagCandidate t (tags ! k) = Some r"
        "containsPos r offset" "\<forall>k'. k < k' \<and> k' < n \<longrightarrow> \<not> acceptedTag t offset (tags ! k')"
        by blast
      from k(4) False have "\<forall>k'. k < k' \<and> k' < Suc n \<longrightarrow> \<not> acceptedTag t offset (tags ! k')"
        by (auto simp: less_Suc_eq)
      with k show ?thesis by (meson less_SucI)
    qed
    with none False show ?thesis
      unfolding eq by (auto simp: less_Suc_eq)
  qed
qed

lemma wellTag_index_lt: "wellTag t tag \<Longrightarrow> index tag < tagEnd tag"
  by (auto simp: wellTag_def dest: openingTagAt_Some)

lemma collectTags_increasing:
  assumes "k < l" and "l < length (collectTags t offset 0 [])"
  shows "tagEnd (collectTags t offset 0 [] ! k) < tagEnd (collectTags t offset 0 [] ! l)"
proof -
  let ?tags = "collectTags t offset 0 []"
  from collectTags_props [of t offset 0]
  have w: "\<forall>tag\<in>set ?tags. wellTag t tag"
    and s: "sorted_wrt (\<lambda>a b. tagEnd a \<le> index b) ?tags" by auto
  from s assms have "tagEnd (?tags ! k) \<le> index (?tags ! l)"
    by (simp add: sorted_wrt_iff_nth_less)
  moreover from w assms have "wellTag t (?tags ! l)"
    by (meson nth_mem)
  then have "index (?tags ! l) < tagEnd (?tags ! l)"
    by (rule wellTag_index_lt)
  ultimately show ?thesis by simp
qed

lemma findEnclosingTags_None_iff:
  "findEnclosingTags t offset = None \<longleftrightarrow>
     (\<forall>tag\<in>set (collectTags t offset 0 []). \<not> acceptedTag t offset tag)"
proof -
  let ?tags = "collectTags t offset 0 []"
  have inc: "\<forall>k l. k < l \<and> l < length ?tags \<longrightarrow> tagEnd (?tags ! k) < tagEnd (?tags ! l)"
    by (simp add: collectTags_increasing)
  note res = tagLoop_result [OF inc, of t offset]
  show ?thesis
  proof
    assume "findEnclosingTags t offset = None"
    with res have "\<forall>k<length ?tags. \<not> acceptedTag t offset (?tags ! k)"
      by (simp add: findEnclosingTags_def Let_def)
    then show "\<forall>tag\<in>set ?tags. \<not> acceptedTag t offset tag"
      by (auto simp: in_set_conv_nth)
  next
    assume none: "\<forall>tag\<in>set ?tags. \<not> acceptedTag t offset tag"
    show "findEnclosingTags t offset = None"
    proof (cases "findEnclosingTags t offset")
      case None
      then show ?thesis .
    next
      case (Some r)
      with res obtain k where "k < length ?tags" "tagCandidate t (?tags ! k) = Some r"
        "containsPos r offset"
        by (auto simp: findEnclosingTags_def Let_def)
      with none show ?thesis
        by (auto simp: acceptedTag_def)
    qed
  qed
qed

lemma findEnclosingTags_Some:
  assumes "findEnclosingTags t offset = Some r"
  shows "\<exists>tag\<in>set (collectTags t offset 0 []).
           tagCandidate t tag = Some r \<and> containsPos r offset \<and>
           (\<forall>tag'\<in>set (collectTags t offset 0 []).
              acceptedTag t offset tag' \<longrightarrow> tagEnd tag' \<le> tagEnd tag)"
proof -
  let ?tags = "collectTags t offset 0 []"
  have inc: "\<forall>k l. k < l \<and> l < length ?tags \<longrightarrow> tagEnd (?tags ! k) < tagEnd (?tags ! l)"
    by (simp add: collectTags_increasing)
  from tagLoop_result [OF inc, of t offset] assms
  obtain k where k: "k < length ?tags" "tagCandidate t (?tags ! k) = Some r"
    "containsPos r offset"
    and mx: "\<forall>k'. k < k' \<and> k' < length ?tags \<longrightarrow> \<not> acceptedTag t offset (?tags ! k')"
    by (auto simp: findEnclosingTags_def Let_def)
  have "tagEnd tag' \<le> tagEnd (?tags ! k)"
    if "tag' \<in> set ?tags" "acceptedTag t offset tag'" for tag'
  proof -
    from that(1) obtain k' where k': "k' < length ?tags" "?tags ! k' = tag'"
      by (auto simp: in_set_conv_nth)
    with mx that(2) have "k' \<le> k" by (meson not_le)
    show ?thesis
    proof (cases "k' = k")
      case True
      with k' show ?thesis by simp
    next
      case False
      with \<open>k' \<le> k\<close> have "k' < k" by simp
      with inc k(1) have "tagEnd (?tags ! k') < tagEnd (?tags ! k)" by blast
      with k' show ?thesis by simp
    qed
  qed
  with k show ?thesis by (meson nth_mem)
qed

lemma takeWhile_eq_filter_sorted:
  assumes "sorted_wrt R xs" and "\<And>a b. R a b \<Longrightarrow> P b \<Longrightarrow> P a"
  shows "takeWhile P xs = filter P xs"
  using assms(1)
proof (induction xs)
  case Nil
  then show ?case by simp
next
  case (Cons x xs)
  show ?case
  proof (cases "P x")
    case True
    with Cons show ?thesis by simp
  next
    case False
    with Cons.prems assms(2) have "\<forall>y\<in>set xs. \<not> P y" by auto
    with False show ?thesis by (simp add: filter_empty_conv)
  qed
qed

lemma collectTags_filter:
  "collectTags t offset 0 [] = filter (\<lambda>tag. index tag \<le> offset) (allTags t)"
proof -
  from collectTags_props [of t "length t" 0]
  have w: "\<forall>tag\<in>set (allTags t). wellTag t tag"
    and s: "sorted_wrt (\<lambda>a b. tagEnd a \<le> index b) (allTags t)"
    by (auto simp: allTags_def)
  from s have s': "sorted_wrt (\<lambda>a b. wellTag t a \<and> tagEnd a \<le> index b) (allTags t)"
    using w by (simp add: sorted_wrt_iff_nth_less)
  have "takeWhile (\<lambda>tag. index tag \<le> offset) (allTags t) =
      filter (\<lambda>tag. index tag \<le> offset) (allTags t)"
    by (rule takeWhile_eq_filter_sorted [OF s']) (auto dest: wellTag_index_lt)
  then show ?thesis
    by (simp add: collectTags_takeWhile [of t offset 0] allTags_def)
qed

lemma tagCloseScan_tokens:
  "tagCloseScan t n l d = scanTokens t (closingTokens t n l) d"
proof (induction t n l d rule: tagCloseScan.induct)
  case (1 t n l d)
  show ?case
  proof (cases "execClosing t n l")
    case None
    then show ?thesis
      by (simp add: tagCloseScan.simps [of t n l d] closingTokens.simps [of t n l])
  next
    case (Some a)
    obtain idx e where a: "a = (idx, e)" by (cases a)
    with Some have ex: "execClosing t n l = Some (idx, e)" by simp
    show ?thesis
    proof (cases "startsWithClose t idx e")
      case True
      show ?thesis
      proof (cases "d - 1 = 0")
        case z: True
        then have d1: "d = 1" by simp
        from ex True show ?thesis
          unfolding d1
          by (simp add: tagCloseScan.simps [of t n l 1] closingTokens.simps [of t n l])
      next
        case z: False
        from "1.IH"(1) [OF ex refl True z] ex True z show ?thesis
          by (simp add: tagCloseScan.simps [of t n l d] closingTokens.simps [of t n l])
      qed
    next
      case False
      from "1.IH"(2) [OF ex refl False] ex False show ?thesis
        by (simp add: tagCloseScan.simps [of t n l d] closingTokens.simps [of t n l])
    qed
  qed
qed

lemma tokenDepth_Cons:
  "tokenDepth t d (tok # toks) = tokenDepth t (d + tokenStep t tok) toks"
  by (simp add: tokenDepth_def)

lemma tokenDepth_Nil: "tokenDepth t d [] = d"
  by (simp add: tokenDepth_def)

lemma tokensFirstZero_Nil: "\<not> tokensFirstZero t [] d c"
  by (simp add: tokensFirstZero_def)

lemma tokensFirstZero_Cons:
  "tokensFirstZero t (tok # toks) d c \<longleftrightarrow>
     (fst tok = c \<and> d + tokenStep t tok = 0) \<or>
     (0 < d + tokenStep t tok \<and> tokensFirstZero t toks (d + tokenStep t tok) c)"
  unfolding tokensFirstZero_def
  by (simp add: Ex_less_Suc2 All_less_Suc2 tokenDepth_Cons tokenDepth_Nil) blast

lemma scanTokens_iff:
  "1 \<le> d \<Longrightarrow> scanTokens t toks d = Some c \<longleftrightarrow> tokensFirstZero t toks d c"
proof (induction toks arbitrary: d)
  case Nil
  show ?case by (simp add: tokensFirstZero_Nil)
next
  case (Cons tok toks)
  obtain idx e where tok: "tok = (idx, e)" by (cases tok)
  show ?case
  proof (cases "startsWithClose t idx e")
    case True
    then have st: "tokenStep t tok = - 1" by (simp add: tokenStep_def tok)
    show ?thesis
    proof (cases "d - 1 = 0")
      case z: True
      with True st tok show ?thesis
        by (auto simp: tokensFirstZero_Cons)
    next
      case z: False
      with Cons.prems have "1 \<le> d - 1" by simp
      from Cons.IH [OF this] True st tok z Cons.prems show ?thesis
        by (auto simp: tokensFirstZero_Cons)
    qed
  next
    case False
    then have st: "tokenStep t tok = 1" by (simp add: tokenStep_def tok)
    from Cons.prems have "1 \<le> d + 1" by simp
    from Cons.IH [OF this] False st tok Cons.prems show ?thesis
      by (auto simp: tokensFirstZero_Cons)
  qed
qed

lemma tagCloseScan_iff:
  "1 \<le> d \<Longrightarrow> tagCloseScan t n l d = Some c \<longleftrightarrow> tokensFirstZero t (closingTokens t n l) d c"
  by (simp add: tagCloseScan_tokens scanTokens_iff)

lemma tagCandidate_iff:
  "tagCandidate t tag = Some r \<longleftrightarrow>
     start r = tagEnd tag \<and> tagEnd tag \<le> endOffset r \<and> balancedTag t tag (endOffset r)"
proof
  assume a: "tagCandidate t tag = Some r"
  from tagCandidate_Some [OF a] show "start r = tagEnd tag \<and> tagEnd tag \<le> endOffset r \<and>
      balancedTag t tag (endOffset r)"
    by (simp add: balancedTag_def tagCloseScan_iff)
next
  assume a: "start r = tagEnd tag \<and> tagEnd tag \<le> endOffset r \<and> balancedTag t tag (endOffset r)"
  then have "tagCloseScan t (name tag) (tagEnd tag) 1 = Some (endOffset r)"
    by (simp add: balancedTag_def tagCloseScan_iff)
  with a show "tagCandidate t tag = Some r"
    by (simp add: tagCandidate_def mkRange_le)
qed

lemma isWordChar_not_slash: "isWordChar c \<Longrightarrow> c \<noteq> CHR ''/''"
  by (auto simp: isWordChar_def)

lemma wellTag_name:
  assumes "wellTag t tag"
  shows "name tag \<noteq> [] \<and> hd (name tag) \<noteq> CHR ''/''"
proof -
  from assms openingTagAt_Some [of t "index tag" "name tag" "tagEnd tag"]
  have n: "name tag \<noteq> []" and w: "\<forall>c\<in>set (name tag). isWordChar c"
    by (simp_all add: wellTag_def)
  from n w have "isWordChar (hd (name tag))" by simp
  with n show ?thesis by (simp add: isWordChar_not_slash)
qed

lemma startsWithClose_closing:
  assumes m: "closingMatchAt t n c = Some e" and s: "startsWithClose t c e"
    and n: "n \<noteq> []" "hd n \<noteq> CHR ''/''"
  shows "closingTagAt t n c"
proof (rule ccontr)
  assume no: "\<not> closingTagAt t n c"
  with m have p: "prefix (''<'' @ n) (drop c t)"
    by (auto simp: closingMatchAt_def closingTagAt_def split: if_splits)
  from n obtain x xs where nx: "n = x # xs" "x \<noteq> CHR ''/''" by (cases n) auto
  from p nx obtain ys where d: "drop c t = CHR ''<'' # x # ys"
    by (auto simp: prefix_def)
  from s have "prefix ''</'' (take (e - c) (drop c t))"
    by (simp add: startsWithClose_def)
  then have "prefix ''</'' (drop c t)"
    by (meson prefix_order.trans take_is_prefix)
  with d nx show False by simp
qed

lemma tagCandidate_closing:
  assumes "tagCandidate t tag = Some r" and "wellTag t tag"
  shows "closingTagAt t (name tag) (endOffset r)"
proof -
  from tagCandidate_Some [OF assms(1)]
  have "tagCloseScan t (name tag) (tagEnd tag) 1 = Some (endOffset r)" by simp
  from tagCloseScan_Some [OF this] obtain e
    where "closingMatchAt t (name tag) (endOffset r) = Some e" "startsWithClose t (endOffset r) e"
    by blast
  with wellTag_name [OF assms(2)] show ?thesis
    by (auto intro: startsWithClose_closing)
qed

lemma allTags_wellTag: "tag \<in> set (allTags t) \<Longrightarrow> wellTag t tag"
  using collectTags_props [of t "length t" 0] by (simp add: allTags_def)

lemma recorded_iff:
  "tag \<in> set (collectTags t offset 0 []) \<longleftrightarrow> tag \<in> set (allTags t) \<and> index tag \<le> offset"
  by (auto simp: collectTags_filter)

lemma allTags_inj:
  assumes "a \<in> set (allTags t)" and "b \<in> set (allTags t)" and "tagEnd a = tagEnd b"
  shows "a = b"
proof -
  from collectTags_props [of t "length t" 0]
  have s: "sorted_wrt (\<lambda>a b. tagEnd a \<le> index b) (allTags t)"
    by (simp add: allTags_def)
  from assms obtain k l where k: "k < length (allTags t)" "allTags t ! k = a"
    and l: "l < length (allTags t)" "allTags t ! l = b"
    by (auto simp: in_set_conv_nth)
  have "k = l"
  proof (rule ccontr)
    assume "k \<noteq> l"
    then consider "k < l" | "l < k" by linarith
    then show False
    proof cases
      case 1
      with s l k have "tagEnd a \<le> index b" by (auto simp: sorted_wrt_iff_nth_less)
      with wellTag_index_lt [OF allTags_wellTag [OF assms(2)]] assms(3) show False by simp
    next
      case 2
      with s l k have "tagEnd b \<le> index a" by (auto simp: sorted_wrt_iff_nth_less)
      with wellTag_index_lt [OF allTags_wellTag [OF assms(1)]] assms(3) show False by simp
    qed
  qed
  with k l show ?thesis by simp
qed

lemma acceptedTag_recorded:
  assumes "tag \<in> set (allTags t)" and "acceptedTag t offset tag"
  shows "tag \<in> set (collectTags t offset 0 [])"
proof -
  from assms(2) obtain r where "tagCandidate t tag = Some r" "containsPos r offset"
    by (auto simp: acceptedTag_def)
  then have "tagEnd tag \<le> offset"
    using tagCandidate_Some [of t tag r] by (simp add: containsPos_iff)
  with wellTag_index_lt [OF allTags_wellTag [OF assms(1)]] assms(1) show ?thesis
    by (simp add: recorded_iff)
qed

lemma findEnclosingTags_Some_all:
  assumes "findEnclosingTags t offset = Some r"
  shows "\<exists>tag\<in>set (allTags t). tagCandidate t tag = Some r \<and> containsPos r offset \<and>
           (\<forall>tag'\<in>set (allTags t). acceptedTag t offset tag' \<longrightarrow> tagEnd tag' \<le> tagEnd tag)"
proof -
  from findEnclosingTags_Some [OF assms] obtain tag
    where tag: "tag \<in> set (collectTags t offset 0 [])" "tagCandidate t tag = Some r"
      "containsPos r offset"
      and mx: "\<forall>tag'\<in>set (collectTags t offset 0 []).
                 acceptedTag t offset tag' \<longrightarrow> tagEnd tag' \<le> tagEnd tag"
    by blast
  from mx have "\<forall>tag'\<in>set (allTags t). acceptedTag t offset tag' \<longrightarrow> tagEnd tag' \<le> tagEnd tag"
    by (auto dest: acceptedTag_recorded)
  with tag show ?thesis by (auto simp: recorded_iff)
qed

lemma findEnclosingTags_None_all:
  "findEnclosingTags t offset = None \<longleftrightarrow> (\<forall>tag\<in>set (allTags t). \<not> acceptedTag t offset tag)"
  by (auto simp: findEnclosingTags_None_iff recorded_iff dest: acceptedTag_recorded)

lemma findEnclosingTags_balanced:
  assumes "findEnclosingTags t offset = Some r"
  shows "\<exists>tag\<in>set (allTags t). wellTag t tag \<and> start r = tagEnd tag \<and>
           closingTagAt t (name tag) (endOffset r) \<and> balancedTag t tag (endOffset r)"
proof -
  from findEnclosingTags_Some_all [OF assms] obtain tag
    where tag: "tag \<in> set (allTags t)" "tagCandidate t tag = Some r" by blast
  from tag(1) have w: "wellTag t tag" by (rule allTags_wellTag)
  from tag(2) have "start r = tagEnd tag" "balancedTag t tag (endOffset r)"
    by (simp_all add: tagCandidate_iff)
  with tag(1) w tagCandidate_closing [OF tag(2) w] show ?thesis by blast
qed

lemma tagCandidate_None:
  assumes "\<forall>c. \<not> balancedTag t tag c"
  shows "tagCandidate t tag = None"
  using assms by (cases "tagCandidate t tag") (auto simp: tagCandidate_iff)

lemma findEnclosingTags_start:
  assumes "findEnclosingTags t offset = Some r" and "tag \<in> set (allTags t)"
    and "start r = tagEnd tag"
  shows "tagCandidate t tag = Some r"
proof -
  from findEnclosingTags_Some_all [OF assms(1)] obtain tag'
    where tag': "tag' \<in> set (allTags t)" "tagCandidate t tag' = Some r" by blast
  from tag'(2) assms(3) have "tagEnd tag' = tagEnd tag"
    by (simp add: tagCandidate_iff)
  from allTags_inj [OF tag'(1) assms(2) this] tag'(2) show ?thesis by simp
qed

lemma balancedTag_closing:
  assumes "balancedTag t tag c" and "wellTag t tag"
  shows "tagEnd tag \<le> c \<and> closingTagAt t (name tag) c"
proof -
  from assms(1) have s: "tagCloseScan t (name tag) (tagEnd tag) 1 = Some c"
    by (simp add: balancedTag_def tagCloseScan_iff)
  from tagCloseScan_Some [OF s] have le: "tagEnd tag \<le> c" by simp
  with s have "tagCandidate t tag = Some \<lparr>start = tagEnd tag, endOffset = c\<rparr>"
    by (simp add: tagCandidate_def mkRange_le)
  from tagCandidate_closing [OF this assms(2)] le show ?thesis by simp
qed

lemma tagCandidate_at_start:
  assumes m: "tag \<in> set (allTags t)" and c: "tagCandidate t tag = Some r"
  shows "findEnclosingTags t (start r) = Some r"
proof -
  from c have st: "start r = tagEnd tag" and ord: "start r \<le> endOffset r"
    by (simp_all add: tagCandidate_iff)
  then have acc: "acceptedTag t (start r) tag"
    using c by (auto simp: acceptedTag_def containsPos_iff)
  with m have "findEnclosingTags t (start r) \<noteq> None"
    by (auto simp: findEnclosingTags_None_all)
  then obtain r' where r': "findEnclosingTags t (start r) = Some r'" by auto
  from findEnclosingTags_Some_all [OF this] obtain tag'
    where tag': "tag' \<in> set (allTags t)" "tagCandidate t tag' = Some r'" "containsPos r' (start r)"
      and mx: "\<forall>x\<in>set (allTags t). acceptedTag t (start r) x \<longrightarrow> tagEnd x \<le> tagEnd tag'"
    by blast
  from mx acc m have "tagEnd tag \<le> tagEnd tag'" by simp
  moreover from tag'(2,3) st have "tagEnd tag' \<le> tagEnd tag"
    by (simp add: tagCandidate_iff containsPos_iff)
  ultimately have "tagEnd tag' = tagEnd tag" by simp
  from allTags_inj [OF tag'(1) m this] tag'(2) c r' show ?thesis by simp
qed

lemma tagCandidate_at_end:
  assumes m: "tag \<in> set (allTags t)" and c: "tagCandidate t tag = Some r"
  shows "\<exists>r'. findEnclosingTags t (endOffset r) = Some r' \<and> start r \<le> start r'"
proof -
  from c have st: "start r = tagEnd tag" and ord: "start r \<le> endOffset r"
    by (simp_all add: tagCandidate_iff)
  then have acc: "acceptedTag t (endOffset r) tag"
    using c by (auto simp: acceptedTag_def containsPos_iff)
  with m have "findEnclosingTags t (endOffset r) \<noteq> None"
    by (auto simp: findEnclosingTags_None_all)
  then obtain r' where r': "findEnclosingTags t (endOffset r) = Some r'" by auto
  from findEnclosingTags_Some_all [OF this] obtain tag'
    where tag': "tagCandidate t tag' = Some r'"
      and mx: "\<forall>x\<in>set (allTags t). acceptedTag t (endOffset r) x \<longrightarrow> tagEnd x \<le> tagEnd tag'"
    by blast
  from mx acc m have "tagEnd tag \<le> tagEnd tag'" by simp
  with st tag' have "start r \<le> start r'" by (simp add: tagCandidate_iff)
  with r' show ?thesis by blast
qed

text \<open>
  Where the text has no \<open><\<close> followed by the name and one more word character, the scan
  of the code and the search of the specification find the same matches, and so the same
  closing tag.
\<close>

lemma takeWhile_word_name:
  assumes w: "\<forall>c\<in>set nm. isWordChar c"
    and nolong: "case charAt t (p + 1 + length nm) of Some c \<Rightarrow> \<not> isWordChar c | None \<Rightarrow> True"
    and pre: "prefix nm (drop (p + 1) t)"
  shows "takeWhile isWordChar (drop (p + 1) t) = nm"
proof -
  from pre obtain rest where d: "drop (p + 1) t = nm @ rest"
    by (auto simp: prefix_def)
  have "drop (p + 1 + length nm) t = drop (length nm) (drop (p + 1) t)"
    by (simp add: add.commute)
  with d have r: "drop (p + 1 + length nm) t = rest" by simp
  have "takeWhile isWordChar rest = []"
  proof (cases rest)
    case Nil
    then show ?thesis by simp
  next
    case (Cons c cs)
    with r have lt: "p + 1 + length nm < length t"
      by (metis drop_eq_Nil list.distinct(1) not_le)
    from r Cons have "t ! (p + 1 + length nm) = c"
      by (metis Cons_nth_drop_Suc lt list.inject)
    with nolong lt have "\<not> isWordChar c"
      by (simp add: charAt_def)
    with Cons show ?thesis by simp
  qed
  with w d show ?thesis
    by (simp add: takeWhile_append2)
qed

lemma matchAt_agree:
  assumes ne: "nm \<noteq> []" and w: "\<forall>c\<in>set nm. isWordChar c"
    and nolong: "\<not> longerNameAt t nm p"
  shows "closingMatchAt t nm p = sameNameMatchAt t nm p"
proof (cases "closingTagAt t nm p")
  case True
  then show ?thesis
    by (simp add: closingMatchAt_def sameNameMatchAt_def closingTagAt_def)
next
  case noclose: False
  show ?thesis
  proof (cases "prefix (''<'' @ nm) (drop p t)")
    case True
    then obtain rest where d: "drop p t = CHR ''<'' # nm @ rest"
      by (auto simp: prefix_def)
    then have lt: "p < length t"
      by (metis drop_eq_Nil list.distinct(1) not_le)
    with d have c: "charAt t p = Some CHR ''<''"
      by (metis Cons_nth_drop_Suc charAt_def list.inject)
    from d lt have d1: "drop (p + 1) t = nm @ rest"
      by (metis Cons_nth_drop_Suc Suc_eq_plus1 list.inject)
    then have pre: "prefix nm (drop (p + 1) t)" by simp
    from nolong True
    have "case charAt t (p + 1 + length nm) of Some c \<Rightarrow> \<not> isWordChar c | None \<Rightarrow> True"
      by (auto simp: longerNameAt_def split: option.splits)
    from takeWhile_word_name [OF w this pre]
    have tw: "takeWhile isWordChar (drop (p + 1) t) = nm" .
    from True noclose c tw ne show ?thesis
      by (simp add: closingMatchAt_def sameNameMatchAt_def closingTagAt_def openingTagAt_def
          Let_def)
  next
    case False
    have "n \<noteq> nm" if o: "openingTagAt t p = Some (n, e)" for n e
    proof
      assume "n = nm"
      with o have c: "charAt t p = Some CHR ''<''"
        and tw: "takeWhile isWordChar (drop (p + 1) t) = nm"
        by (auto simp: openingTagAt_def Let_def split: if_splits)
      from c have lt: "p < length t" and h: "t ! p = CHR ''<''"
        by (auto simp: charAt_def split: if_splits)
      have "prefix (takeWhile isWordChar (drop (p + 1) t)) (drop (p + 1) t)"
        by (metis prefixI takeWhile_dropWhile_id)
      with tw have "prefix nm (drop (p + 1) t)" by simp
      moreover from lt h have "drop p t = CHR ''<'' # drop (p + 1) t"
        by (metis Cons_nth_drop_Suc Suc_eq_plus1)
      ultimately have "prefix (''<'' @ nm) (drop p t)" by simp
      with False show False by simp
    qed
    with False noclose show ?thesis
      by (auto simp: closingMatchAt_def sameNameMatchAt_def closingTagAt_def
          split: option.splits)
  qed
qed

lemma tokens_agree:
  assumes "nm \<noteq> []" and "\<forall>c\<in>set nm. isWordChar c" and "\<forall>p. \<not> longerNameAt t nm p"
  shows "closingTokens t nm l = sameNameTokens t nm l"
  using assms
proof (induction t nm l rule: sameNameTokens.induct)
  case (1 t nm l)
  note ne = "1.prems"(1) and w = "1.prems"(2) and nolong = "1.prems"(3)
  from nolong have agree: "closingMatchAt t nm l = sameNameMatchAt t nm l"
    by (simp add: matchAt_agree [OF ne w])
  show ?case
  proof (cases "l < length t")
    case False
    then show ?thesis
      by (simp add: closingTokens.simps [of t nm l] execClosing.simps [of t nm l]
          sameNameTokens.simps [of t nm l])
  next
    case lt: True
    show ?thesis
    proof (cases "sameNameMatchAt t nm l")
      case None
      from "1.IH"(1) [OF lt None ne w nolong]
      have "closingTokens t nm (l + 1) = sameNameTokens t nm (l + 1)" .
      with lt None agree show ?thesis
        by (simp add: closingTokens.simps [of t nm l] closingTokens.simps [of t nm "Suc l"]
            execClosing.simps [of t nm l] sameNameTokens.simps [of t nm l])
    next
      case (Some e)
      from "1.IH"(2) [OF lt Some ne w nolong]
      have "closingTokens t nm e = sameNameTokens t nm e" .
      with lt Some agree show ?thesis
        by (simp add: closingTokens.simps [of t nm l] execClosing.simps [of t nm l]
            sameNameTokens.simps [of t nm l])
    qed
  qed
qed

lemma tagCloseScan_sameName:
  assumes "nm \<noteq> []" and "\<forall>c\<in>set nm. isWordChar c" and "\<forall>p. \<not> longerNameAt t nm p"
  shows "tagCloseScan t nm l 1 = sameNameCloseScan t nm l"
  by (simp add: tagCloseScan_tokens sameNameCloseScan_def tokens_agree [OF assms])

lemma tagCandidate_sameName:
  assumes "wellTag t tag" and "\<forall>p. \<not> longerNameAt t (name tag) p"
  shows "tagCloseScan t (name tag) (tagEnd tag) 1 = sameNameCloseScan t (name tag) (tagEnd tag)"
proof -
  from assms(1) openingTagAt_Some [of t "index tag" "name tag" "tagEnd tag"]
  have "name tag \<noteq> []" "\<forall>c\<in>set (name tag). isWordChar c"
    by (simp_all add: wellTag_def)
  from tagCloseScan_sameName [OF this assms(2)] show ?thesis .
qed

section \<open>The tag matcher on the heap\<close>

lemma frame_setLastIndex: "frame re h (setLastIndex h re v)"
  by (simp add: frame_def setLastIndex_def)

lemma frame_trans: "frame re h h' \<Longrightarrow> frame re h' h'' \<Longrightarrow> frame re h h''"
  by (simp add: frame_def)

lemma lastIndexOf_setLastIndex: "lastIndexOf (setLastIndex h re v) re = v"
  by (simp add: setLastIndex_def)

lemma collectTagsS_pure:
  "fst (collectTagsS t offset re tags h) = collectTags t offset (lastIndexOf h re) tags \<and>
   frame re h (snd (collectTagsS t offset re tags h))"
proof (induction t offset re tags h rule: collectTagsS.induct)
  case (1 t offset re tags h)
  show ?case
  proof (cases "execOpening t (lastIndexOf h re)")
    case None
    then show ?thesis
      by (simp add: collectTagsS.simps [of t offset re tags h]
          collectTags.simps [of t offset "lastIndexOf h re" tags] frame_setLastIndex)
  next
    case (Some a)
    obtain idx nm e where a: "a = (idx, nm, e)" by (cases a)
    show ?thesis
    proof (cases "idx > offset")
      case True
      with Some a show ?thesis
        by (simp add: collectTagsS.simps [of t offset re tags h]
            collectTags.simps [of t offset "lastIndexOf h re" tags] frame_setLastIndex)
    next
      case False
      from "1.IH" [OF Some a [symmetric] refl False]
      have ih: "fst (collectTagsS t offset re
            (if nm \<noteq> [] then tags @ [\<lparr>index = idx, name = nm, tagEnd = e\<rparr>] else tags)
            (setLastIndex h re e)) =
          collectTags t offset e
            (if nm \<noteq> [] then tags @ [\<lparr>index = idx, name = nm, tagEnd = e\<rparr>] else tags)"
        and fr: "frame re (setLastIndex h re e) (snd (collectTagsS t offset re
            (if nm \<noteq> [] then tags @ [\<lparr>index = idx, name = nm, tagEnd = e\<rparr>] else tags)
            (setLastIndex h re e)))"
        by (simp_all add: lastIndexOf_setLastIndex)
      from frame_trans [OF frame_setLastIndex fr]
      have fr': "frame re h (snd (collectTagsS t offset re
            (if nm \<noteq> [] then tags @ [\<lparr>index = idx, name = nm, tagEnd = e\<rparr>] else tags)
            (setLastIndex h re e)))" .
      from Some a False ih fr' show ?thesis
        by (simp add: collectTagsS.simps [of t offset re tags h]
            collectTags.simps [of t offset "lastIndexOf h re" tags])
    qed
  qed
qed

lemma tagCloseScanS_pure:
  "fst (tagCloseScanS t nm re d h) = tagCloseScan t nm (lastIndexOf h re) d \<and>
   frame re h (snd (tagCloseScanS t nm re d h))"
proof (induction t nm re d h rule: tagCloseScanS.induct)
  case (1 t nm re d h)
  show ?case
  proof (cases "execClosing t nm (lastIndexOf h re)")
    case None
    then show ?thesis
      by (simp add: tagCloseScanS.simps [of t nm re d h]
          tagCloseScan.simps [of t nm "lastIndexOf h re" d] frame_setLastIndex)
  next
    case (Some a)
    obtain idx e where a: "a = (idx, e)" by (cases a)
    with Some have ex: "execClosing t nm (lastIndexOf h re) = Some (idx, e)" by simp
    show ?thesis
    proof (cases "startsWithClose t idx e")
      case True
      show ?thesis
      proof (cases "d - 1 = 0")
        case z: True
        then have d1: "d = 1" by simp
        from ex True show ?thesis
          unfolding d1
          by (simp add: tagCloseScanS.simps [of t nm re 1 h]
              tagCloseScan.simps [of t nm "lastIndexOf h re" 1] frame_setLastIndex)
      next
        case z: False
        from "1.IH"(1) [OF ex refl True z]
        have ih: "fst (tagCloseScanS t nm re (d - 1) (setLastIndex h re e)) =
            tagCloseScan t nm e (d - 1)"
          and fr: "frame re (setLastIndex h re e)
            (snd (tagCloseScanS t nm re (d - 1) (setLastIndex h re e)))"
          by (simp_all add: lastIndexOf_setLastIndex)
        from frame_trans [OF frame_setLastIndex fr] ex True z ih show ?thesis
          by (simp add: tagCloseScanS.simps [of t nm re d h]
              tagCloseScan.simps [of t nm "lastIndexOf h re" d])
      qed
    next
      case False
      from "1.IH"(2) [OF ex refl False]
      have ih: "fst (tagCloseScanS t nm re (d + 1) (setLastIndex h re e)) =
          tagCloseScan t nm e (d + 1)"
        and fr: "frame re (setLastIndex h re e)
          (snd (tagCloseScanS t nm re (d + 1) (setLastIndex h re e)))"
        by (simp_all add: lastIndexOf_setLastIndex)
      from frame_trans [OF frame_setLastIndex fr] ex False ih show ?thesis
        by (simp add: tagCloseScanS.simps [of t nm re d h]
            tagCloseScan.simps [of t nm "lastIndexOf h re" d])
    qed
  qed
qed

lemma extends_refl: "extends h h"
  by (simp add: extends_def)

lemma extends_trans: "extends h h' \<Longrightarrow> extends h' h'' \<Longrightarrow> extends h h''"
  by (auto simp: extends_def)

lemma extends_newRegExp:
  "newRegExp h = (re, h1) \<Longrightarrow> re = allocated h \<and> lastIndexOf h1 re = 0 \<and>
     allocated h1 = allocated h + 1 \<and> extends h h1"
  by (auto simp: newRegExp_def extends_def)

lemma frame_extends:
  assumes "extends h h1" and "allocated h \<le> re" and "frame re h1 h2"
  shows "extends h h2"
  using assms by (auto simp: extends_def frame_def)

lemma tagStepS_pure:
  "fst (tagStepS t offset tag best h) = tagStep t offset tag best \<and>
   extends h (snd (tagStepS t offset tag best h))"
proof -
  obtain re h1 where n: "newRegExp h = (re, h1)" by (cases "newRegExp h")
  define h2 where "h2 = setLastIndex h1 re (tagEnd tag)"
  obtain found h3 where s: "tagCloseScanS t (name tag) re 1 h2 = (found, h3)"
    by (cases "tagCloseScanS t (name tag) re 1 h2")
  from tagCloseScanS_pure [of t "name tag" re 1 h2] s
  have f: "found = tagCloseScan t (name tag) (tagEnd tag) 1" and fr: "frame re h2 h3"
    by (simp_all add: h2_def lastIndexOf_setLastIndex)
  from extends_newRegExp [OF n] have e1: "extends h h1" and re: "re = allocated h" by blast+
  have "frame re h1 h2" by (simp add: h2_def frame_setLastIndex)
  from frame_trans [OF this fr] have "frame re h1 h3" .
  from frame_extends [OF e1 _ this] re have "extends h h3" by simp
  with n s f show ?thesis
    by (simp add: tagStepS_def tagStep_def Let_def h2_def)
qed

lemma tagLoopS_pure:
  "fst (tagLoopS t offset tags n best h) = tagLoop t offset tags n best \<and>
   extends h (snd (tagLoopS t offset tags n best h))"
proof (induction n arbitrary: best h)
  case 0
  show ?case by (simp add: extends_refl)
next
  case (Suc n)
  obtain b' h' where s: "tagStepS t offset (tags ! n) best h = (b', h')"
    by (cases "tagStepS t offset (tags ! n) best h")
  from tagStepS_pure [of t offset "tags ! n" best h] s
  have b: "b' = tagStep t offset (tags ! n) best" and e: "extends h h'" by simp_all
  from Suc.IH [of b' h'] extends_trans [OF e] s b show ?case
    by simp
qed

lemma findEnclosingTagsS_pure:
  "fst (findEnclosingTagsS t offset h) = findEnclosingTags t offset \<and>
   extends h (snd (findEnclosingTagsS t offset h))"
proof -
  obtain re h1 where n: "newRegExp h = (re, h1)" by (cases "newRegExp h")
  obtain tags h2 where c: "collectTagsS t offset re [] h1 = (tags, h2)"
    by (cases "collectTagsS t offset re [] h1")
  from extends_newRegExp [OF n] have e1: "extends h h1" and re: "re = allocated h"
    and z: "lastIndexOf h1 re = 0" by blast+
  from collectTagsS_pure [of t offset re "[]" h1] c z
  have tg: "tags = collectTags t offset 0 []" and fr: "frame re h1 h2" by simp_all
  from frame_extends [OF e1 _ fr] re have e2: "extends h h2" by simp
  from tagLoopS_pure [of t offset tags "length tags" None h2] extends_trans [OF e2] n c tg
  show ?thesis
    by (simp add: findEnclosingTagsS_def findEnclosingTags_def Let_def)
qed

lemma runQueries_pure:
  "fst (runQueries qs h) = map (\<lambda>(t, offset). (findEnclosingTags t offset,
     findEnclosingBrackets t offset)) qs \<and> extends h (snd (runQueries qs h))"
proof (induction qs arbitrary: h)
  case Nil
  show ?case by (simp add: extends_refl)
next
  case (Cons q qs)
  obtain t offset where q: "q = (t, offset)" by (cases q)
  obtain r1 h1 where a: "findEnclosingTagsS t offset h = (r1, h1)"
    by (cases "findEnclosingTagsS t offset h")
  from findEnclosingTagsS_pure [of t offset h] a
  have r1: "r1 = findEnclosingTags t offset" and e: "extends h h1" by simp_all
  obtain rs h3 where b: "runQueries qs h1 = (rs, h3)" by (cases "runQueries qs h1")
  from Cons.IH [of h1] b extends_trans [OF e] q a r1 show ?case
    by (simp add: findEnclosingBracketsS_def)
qed

section \<open>Properties of the selector\<close>

lemma selectBest_None_iff:
  "selectBest p cs = None \<longleftrightarrow> (\<forall>r\<in>set cs. \<not> containsPos r p)"
  by (simp add: selectBest_def firstElem_sortBy_None filter_empty_conv)

lemma selectBest_Some:
  assumes "selectBest p cs = Some r"
  shows "r \<in> set cs \<and> containsPos r p \<and> (\<forall>c\<in>set cs. containsPos c p \<longrightarrow> moreInner r c)"
  using firstElem_sortBy_Some [of "filter (\<lambda>r. containsPos r p) cs" r] assms
  by (auto simp: selectBest_def)

lemma selectBest_two:
  assumes "containsPos tg p" and "containsPos br p"
  shows "selectBest p [tg, br] =
     Some (if start tg < start br \<or> (start tg = start br \<and> endOffset br < endOffset tg)
           then br else tg)"
  using assms by (auto simp: selectBest_def firstElem_def compareRanges_le0)

lemma ex_unbalanced: "candidatesAt ''(a'' 2 = []"
  by code_simp

text \<open>
  What holds of every returned span: it contains the offset; a bracket span is the
  interior of a balanced pair; a tag span starts just after a recorded opening tag and
  ends at a closing tag of its name, the match at which the depth the scan keeps, over
  the matches of its own expression, first returns to zero.
\<close>

lemma returned_span_scan_invariant:
  "(\<forall>r. findEnclosingBrackets t offset = Some r \<longrightarrow>
      start r \<le> offset \<and> offset \<le> endOffset r \<and>
      (\<exists>bp\<in>set brackets. \<exists>i. start r = i + 1 \<and> balancedPair t bp i (endOffset r))) \<and>
   (\<forall>r. findEnclosingTags t offset = Some r \<longrightarrow>
      start r \<le> offset \<and> offset \<le> endOffset r \<and>
      (\<exists>tag\<in>set (allTags t). wellTag t tag \<and> start r = tagEnd tag \<and>
         closingTagAt t (name tag) (endOffset r) \<and> balancedTag t tag (endOffset r))) \<and>
   (\<forall>r. selectBest offset (candidatesAt t offset) = Some r \<longrightarrow>
      start r \<le> offset \<and> offset \<le> endOffset r \<and>
      (findEnclosingTags t offset = Some r \<or> findEnclosingBrackets t offset = Some r))"
proof (intro conjI allI impI)
  fix r assume a: "findEnclosingBrackets t offset = Some r"
  from findEnclosingBrackets_contains [OF a]
  show "start r \<le> offset" "offset \<le> endOffset r"
    by (simp_all add: containsPos_iff)
  from a show "\<exists>bp\<in>set brackets. \<exists>i. start r = i + 1 \<and> balancedPair t bp i (endOffset r)"
    by (rule findEnclosingBrackets_balanced)
next
  fix r assume a: "findEnclosingTags t offset = Some r"
  from findEnclosingTags_contains [OF a]
  show "start r \<le> offset" "offset \<le> endOffset r"
    by (simp_all add: containsPos_iff)
  from a show "\<exists>tag\<in>set (allTags t). wellTag t tag \<and> start r = tagEnd tag \<and>
         closingTagAt t (name tag) (endOffset r) \<and> balancedTag t tag (endOffset r)"
    by (rule findEnclosingTags_balanced)
next
  fix r assume a: "selectBest offset (candidatesAt t offset) = Some r"
  from selectBest_Some [OF a] have m: "r \<in> set (candidatesAt t offset)" and c: "containsPos r offset"
    by simp_all
  from c show "start r \<le> offset" "offset \<le> endOffset r"
    by (simp_all add: containsPos_iff)
  from m show "findEnclosingTags t offset = Some r \<or> findEnclosingBrackets t offset = Some r"
    by (simp add: set_candidatesAt)
qed

lemma newSelection_cases:
  "filter (\<lambda>r. containsPos r (active sel)) (candidatesAt t (active sel)) = candidatesAt t (active sel) \<and>
   (selectBest (active sel) (candidatesAt t (active sel)) = None \<longleftrightarrow>
      findEnclosingTags t (active sel) = None \<and> findEnclosingBrackets t (active sel) = None) \<and>
   (findEnclosingTags t (active sel) = None \<and> findEnclosingBrackets t (active sel) = None \<longrightarrow>
      newSelection t sel = sel) \<and>
   (findEnclosingTags t (active sel) \<noteq> None \<or> findEnclosingBrackets t (active sel) \<noteq> None \<longrightarrow>
      (\<exists>r. (findEnclosingTags t (active sel) = Some r \<or> findEnclosingBrackets t (active sel) = Some r) \<and>
           selectBest (active sel) (candidatesAt t (active sel)) = Some r \<and>
           newSelection t sel = \<lparr>anchor = start r, active = endOffset r\<rparr>))"
proof -
  let ?p = "active sel"
  have none: "selectBest ?p (candidatesAt t ?p) = None \<longleftrightarrow>
      findEnclosingTags t ?p = None \<and> findEnclosingBrackets t ?p = None"
    by (simp add: selectBest_def candidatesAt_filter firstElem_sortBy_None candidatesAt_Nil_iff)
  have some: "\<exists>r. (findEnclosingTags t ?p = Some r \<or> findEnclosingBrackets t ?p = Some r) \<and>
           selectBest ?p (candidatesAt t ?p) = Some r \<and>
           newSelection t sel = \<lparr>anchor = start r, active = endOffset r\<rparr>"
    if "findEnclosingTags t ?p \<noteq> None \<or> findEnclosingBrackets t ?p \<noteq> None"
  proof -
    from that none obtain r where r: "selectBest ?p (candidatesAt t ?p) = Some r"
      by auto
    then have "r \<in> set (candidatesAt t ?p)"
      by (simp add: selectBest_Some)
    with r show ?thesis
      by (auto simp: set_candidatesAt newSelection_def Let_def)
  qed
  have pass: "newSelection t sel = sel"
    if "findEnclosingTags t ?p = None \<and> findEnclosingBrackets t ?p = None"
    using that none by (simp add: newSelection_def Let_def)
  show ?thesis
    apply (intro conjI impI)
       apply (rule candidatesAt_filter)
      apply (rule none)
     apply (erule pass)
    apply (erule some)
    done
qed

section \<open>Evaluations on concrete documents\<close>

lemma ex_unmatched:
  "findBracketPair (charAt ''(<b>x'' 0) = Some (CHR ''('', CHR '')'') \<and>
   bracketCandidate ''(<b>x'' 0 = None \<and>
   allTags ''(<b>x'' = [\<lparr>index = 1, name = ''b'', tagEnd = 4\<rparr>] \<and>
   tagCloseScan ''(<b>x'' ''b'' 4 1 = None"
  by code_simp

lemma ex_boundaries:
  "bracketCandidate ''<a>(x)</a>'' 3 = Some \<lparr>start = 4, endOffset = 5\<rparr> \<and>
   allTags ''<a>(x)</a>'' = [\<lparr>index = 0, name = ''a'', tagEnd = 3\<rparr>] \<and>
   tagCandidate ''<a>(x)</a>'' \<lparr>index = 0, name = ''a'', tagEnd = 3\<rparr> =
     Some \<lparr>start = 3, endOffset = 6\<rparr>"
  by code_simp

lemma ex_shared:
  "fst (collectTagsS ''<a><b>'' 0 0 [] \<lparr>lastIndexOf = \<lambda>a. 0, allocated = 1\<rparr>) =
     [\<lparr>index = 0, name = ''a'', tagEnd = 3\<rparr>] \<and>
   lastIndexOf (snd (collectTagsS ''<a><b>'' 0 0 [] \<lparr>lastIndexOf = \<lambda>a. 0, allocated = 1\<rparr>)) 0 = 6 \<and>
   fst (collectTagsS ''<a><b>'' 0 0 []
     (snd (collectTagsS ''<a><b>'' 0 0 [] \<lparr>lastIndexOf = \<lambda>a. 0, allocated = 1\<rparr>))) = []"
  by code_simp

lemma ex_queries:
  "findEnclosingTags ''<a><b>'' 0 = None \<and>
   findEnclosingTags ''<a>x</a>'' 3 = Some \<lparr>start = 3, endOffset = 4\<rparr> \<and>
   findEnclosingBrackets ''<a>x</a>'' 3 = None \<and> findEnclosingBrackets ''<a><b>'' 0 = None"
  by code_simp

lemma ex_two_slots:
  "findEnclosingTags ''(a) b'' 1 = None \<and>
   findEnclosingBrackets ''(a) b'' 1 = Some \<lparr>start = 1, endOffset = 2\<rparr> \<and>
   findEnclosingTags ''(a) b'' 5 = None \<and> findEnclosingBrackets ''(a) b'' 5 = None"
  by code_simp

section \<open>The claims\<close>

subsection \<open>C1: returned spans contain the offset and are balanced\<close>

text \<open>
  Claim C1 says that every span a matcher returns, and so the span finally selected,
  satisfies start \<open>\<le>\<close> offset \<open>\<le>\<close> end and is the interior of a balanced pair: from its
  opening delimiter or tag the depth, one at the start, first returns to zero at the
  closing delimiter or tag that bounds the span. Containment holds, and a bracket span
  is balanced (\<open>returned_span_scan_invariant\<close>). A tag span need not be. In
  \<open><a><a><ab></ab></a></a>\<close> the tags are \<open>a\<close> at 0, \<open>a\<close> at 3 and \<open>ab\<close> at 6, and closing
  tags of \<open>a\<close> stand at 15 and 19. At offset 19 the tag matcher returns the span from 6,
  just after the inner \<open>a\<close>, to 19, the closing tag of the outer \<open>a\<close>, and the command
  selects it. Counting opening tags named \<open>a\<close> and closing tags of \<open>a\<close>, the depth from 6
  returns to zero at 15; the scan of the code counts \<open><ab>\<close> as well and goes on to 19.
\<close>

theorem unbalanced_tag_span_returned:
  "allTags ''<a><a><ab></ab></a></a>'' =
     [\<lparr>index = 0, name = ''a'', tagEnd = 3\<rparr>, \<lparr>index = 3, name = ''a'', tagEnd = 6\<rparr>,
      \<lparr>index = 6, name = ''ab'', tagEnd = 10\<rparr>] \<and>
   closingTagAt ''<a><a><ab></ab></a></a>'' ''a'' 15 \<and>
   closingTagAt ''<a><a><ab></ab></a></a>'' ''a'' 19 \<and>
   tagCloseScan ''<a><a><ab></ab></a></a>'' ''a'' 6 1 = Some 19 \<and>
   tagCloseScan ''<a><a><ab></ab></a></a>'' ''a'' 10 1 = Some 15 \<and>
   sameNameCloseScan ''<a><a><ab></ab></a></a>'' ''a'' 6 = Some 15 \<and>
   findEnclosingTags ''<a><a><ab></ab></a></a>'' 19 = Some \<lparr>start = 6, endOffset = 19\<rparr> \<and>
   findEnclosingBrackets ''<a><a><ab></ab></a></a>'' 19 = None \<and>
   newSelection ''<a><a><ab></ab></a></a>'' \<lparr>anchor = 19, active = 19\<rparr> =
     \<lparr>anchor = 6, active = 19\<rparr>"
  by code_simp

subsection \<open>C2: the bracket matcher returns the innermost enclosing pair\<close>

text \<open>
  Claim C2. The bracket matcher returns none exactly when no balanced pair encloses the
  offset. A span it returns is the interior of an enclosing balanced pair, and every
  other enclosing balanced pair opens before it: no enclosing pair lies inside the one
  returned. For \<open>{ [ ( x ) ] }\<close> with the cursor at \<open>x\<close> it returns the interior of
  \<open>( x )\<close>.
\<close>

theorem findEnclosingBrackets_innermost:
  "(findEnclosingBrackets t offset = None \<longleftrightarrow> \<not> (\<exists>i j. enclosingPair t offset i j)) \<and>
   (\<forall>r. findEnclosingBrackets t offset = Some r \<longrightarrow>
      (\<exists>i j. r = \<lparr>start = i + 1, endOffset = j\<rparr> \<and> enclosingPair t offset i j \<and>
         (\<forall>i' j'. enclosingPair t offset i' j' \<longrightarrow> i' < i \<or> (i' = i \<and> j' = j)))) \<and>
   findEnclosingBrackets ''{ [ ( x ) ] }'' 6 = Some \<lparr>start = 5, endOffset = 8\<rparr>"
proof (intro conjI allI impI)
  show "findEnclosingBrackets t offset = None \<longleftrightarrow> \<not> (\<exists>i j. enclosingPair t offset i j)"
    by (simp add: findEnclosingBrackets_None_iff acceptedAt_iff)
next
  fix r assume "findEnclosingBrackets t offset = Some r"
  then show "\<exists>i j. r = \<lparr>start = i + 1, endOffset = j\<rparr> \<and> enclosingPair t offset i j \<and>
         (\<forall>i' j'. enclosingPair t offset i' j' \<longrightarrow> i' < i \<or> (i' = i \<and> j' = j))"
    by (rule findEnclosingBrackets_Some_pair)
next
  show "findEnclosingBrackets ''{ [ ( x ) ] }'' 6 = Some \<lparr>start = 5, endOffset = 8\<rparr>"
    by (rule ex_nested)
qed

theorem findEnclosingBrackets_innermost_witness:
  "findEnclosingBrackets ''{ [ ( x ) ] }'' 6 = Some \<lparr>start = 5, endOffset = 8\<rparr> \<and>
   enclosingPair ''{ [ ( x ) ] }'' 6 4 8 \<and> enclosingPair ''{ [ ( x ) ] }'' 6 2 10 \<and>
   enclosingPair ''{ [ ( x ) ] }'' 6 0 12 \<and>
   (\<exists>i j. \<lparr>start = 5, endOffset = 8\<rparr> = \<lparr>start = i + 1, endOffset = j\<rparr> \<and>
      enclosingPair ''{ [ ( x ) ] }'' 6 i j \<and> 2 < i \<and> 0 < i)"
proof -
  from findEnclosingBrackets_innermost [of "''{ [ ( x ) ] }''" 6] ex_nested
  obtain i j where ij: "\<lparr>start = 5, endOffset = 8\<rparr> = \<lparr>start = i + 1, endOffset = j\<rparr>"
    "enclosingPair ''{ [ ( x ) ] }'' 6 i j"
    and mx: "\<forall>i' j'. enclosingPair ''{ [ ( x ) ] }'' 6 i' j' \<longrightarrow> i' < i \<or> (i' = i \<and> j' = j)"
    by blast
  from ij(1) have "i = 4" by simp
  with ij ex_nested ex_nested_pairs show ?thesis by auto
qed

subsection \<open>C3: what moves the depth of the tag scan\<close>

text \<open>
  Claim C3 says that in the forward search for a tag named \<open>N\<close> only opening tags named
  \<open>N\<close> raise the depth and opening tags of any other name leave it alone. The second
  alternative of the expression, \<open><N[^>]*>\<close>, also matches an opening tag whose name
  only starts with \<open>N\<close>. In \<open><a><ab></ab></a>\<close> the opening tag expression names the
  tag at index 3 \<open>ab\<close>; the search for \<open>a\<close> from index 3 matches that tag, it is not a
  closing tag, and the depth goes to 2: the scan continues from index 7 with depth 2 and
  ends without a result, where depth 1 would have found the closing tag at index 12, as
  the search of the specification does. The tag matcher returns no match at offset 3.
  Without such a longer name in the text the two searches agree (\<open>tagCloseScan_sameName\<close>).
\<close>

theorem longer_name_changes_depth:
  "execOpening ''<a><ab></ab></a>'' 3 = Some (3, ''ab'', 7) \<and>
   execClosing ''<a><ab></ab></a>'' ''a'' 3 = Some (3, 7) \<and>
   \<not> startsWithClose ''<a><ab></ab></a>'' 3 7 \<and>
   tagCloseScan ''<a><ab></ab></a>'' ''a'' 3 1 = tagCloseScan ''<a><ab></ab></a>'' ''a'' 7 2 \<and>
   tagCloseScan ''<a><ab></ab></a>'' ''a'' 7 2 = None \<and>
   tagCloseScan ''<a><ab></ab></a>'' ''a'' 7 1 = Some 12 \<and>
   sameNameCloseScan ''<a><ab></ab></a>'' ''a'' 3 = Some 12 \<and>
   findEnclosingTags ''<a><ab></ab></a>'' 3 = None"
  by code_simp

subsection \<open>C4: ranking of the candidates\<close>

text \<open>
  Claim C4. The selector keeps the candidates that contain the query offset, orders them
  by start offset descending and, on equal starts, by end offset ascending, and returns
  the first element of that order. The sorted list is ordered by \<open>moreInner\<close> and has
  the elements of the filtered list; the span returned starts no earlier than any other
  candidate containing the offset and, among those with its start, ends no later. With
  a tag candidate and a bracket candidate that both contain the cursor, the one that
  starts later wins, and on equal starts the one that ends earlier.
\<close>

theorem selectBest_ranking:
  "sorted_wrt moreInner (sortBy compareRanges (filter (\<lambda>r. containsPos r p) cs)) \<and>
   set (sortBy compareRanges (filter (\<lambda>r. containsPos r p) cs)) = {r \<in> set cs. containsPos r p} \<and>
   selectBest p cs = firstElem (sortBy compareRanges (filter (\<lambda>r. containsPos r p) cs)) \<and>
   (\<forall>r. selectBest p cs = Some r \<longrightarrow>
      r \<in> set cs \<and> containsPos r p \<and>
      (\<forall>c\<in>set cs. containsPos c p \<longrightarrow>
         start c \<le> start r \<and> (start c = start r \<longrightarrow> endOffset r \<le> endOffset c))) \<and>
   (containsPos tg p \<and> containsPos br p \<longrightarrow>
      selectBest p [tg, br] =
        Some (if start tg < start br \<or> (start tg = start br \<and> endOffset br < endOffset tg)
              then br else tg))"
proof (intro conjI)
  show "sorted_wrt moreInner (sortBy compareRanges (filter (\<lambda>r. containsPos r p) cs))"
    by (rule sorted_sortBy)
  show "set (sortBy compareRanges (filter (\<lambda>r. containsPos r p) cs)) =
      {r \<in> set cs. containsPos r p}"
    by (simp add: set_sortBy)
  show "selectBest p cs = firstElem (sortBy compareRanges (filter (\<lambda>r. containsPos r p) cs))"
    by (simp add: selectBest_def)
  show "\<forall>r. selectBest p cs = Some r \<longrightarrow>
      r \<in> set cs \<and> containsPos r p \<and>
      (\<forall>c\<in>set cs. containsPos c p \<longrightarrow>
         start c \<le> start r \<and> (start c = start r \<longrightarrow> endOffset r \<le> endOffset c))"
  proof (intro allI impI)
    fix r assume "selectBest p cs = Some r"
    from selectBest_Some [OF this]
    show "r \<in> set cs \<and> containsPos r p \<and>
      (\<forall>c\<in>set cs. containsPos c p \<longrightarrow>
         start c \<le> start r \<and> (start c = start r \<longrightarrow> endOffset r \<le> endOffset c))"
      by (fastforce simp: moreInner_def)
  qed
  show "containsPos tg p \<and> containsPos br p \<longrightarrow>
      selectBest p [tg, br] =
        Some (if start tg < start br \<or> (start tg = start br \<and> endOffset br < endOffset tg)
              then br else tg)"
    using selectBest_two [of tg p br] by blast
qed

theorem selectBest_ranking_witness:
  "containsPos \<lparr>start = 3, endOffset = 6\<rparr> 4 \<and> containsPos \<lparr>start = 4, endOffset = 5\<rparr> 4 \<and>
   selectBest 4 [\<lparr>start = 3, endOffset = 6\<rparr>, \<lparr>start = 4, endOffset = 5\<rparr>] =
     Some \<lparr>start = 4, endOffset = 5\<rparr> \<and>
   selectBest 4 [\<lparr>start = 4, endOffset = 9\<rparr>, \<lparr>start = 4, endOffset = 5\<rparr>] =
     Some \<lparr>start = 4, endOffset = 5\<rparr>"
  using selectBest_ranking [of 4 "[]" "\<lparr>start = 3, endOffset = 6\<rparr>" "\<lparr>start = 4, endOffset = 5\<rparr>"]
    selectBest_ranking [of 4 "[]" "\<lparr>start = 4, endOffset = 9\<rparr>" "\<lparr>start = 4, endOffset = 5\<rparr>"]
  by (simp add: containsPos_def)

subsection \<open>C5: no match leaves the selection alone\<close>

text \<open>
  Claim C5. When no candidate of a cursor contains its position, the command returns
  normally, and the selection it stores for that cursor is the selection it found there;
  the document and the number of selections are unchanged.
\<close>

theorem selectEnclosing_no_match_passthrough:
  assumes "i < length (selections ed)"
    and "\<forall>r\<in>set (candidatesAt (document ed) (active (selections ed ! i))).
           \<not> containsPos r (active (selections ed ! i))"
  shows "\<exists>ed'. selectEnclosing (Some ed) = Some ed' \<and> document ed' = document ed \<and>
           length (selections ed') = length (selections ed) \<and>
           selections ed' ! i = selections ed ! i"
proof -
  from assms(2) have "selectBest (active (selections ed ! i))
      (candidatesAt (document ed) (active (selections ed ! i))) = None"
    by (simp add: selectBest_None_iff)
  then have "newSelection (document ed) (selections ed ! i) = selections ed ! i"
    by (simp add: newSelection_def Let_def)
  with assms(1) show ?thesis
    by (simp add: selectEnclosing_Some)
qed

theorem selectEnclosing_no_match_passthrough_witness:
  "candidatesAt ''(a'' 2 = [] \<and>
   (\<exists>ed'. selectEnclosing (Some \<lparr>document = ''(a'', selections = [\<lparr>anchor = 1, active = 2\<rparr>]\<rparr>) =
             Some ed' \<and> document ed' = ''(a'' \<and> length (selections ed') = 1 \<and>
           selections ed' ! 0 = \<lparr>anchor = 1, active = 2\<rparr>)"
  using selectEnclosing_no_match_passthrough
    [of 0 "\<lparr>document = ''(a'', selections = [\<lparr>anchor = 1, active = 2\<rparr>]\<rparr>"]
  by (simp add: ex_unbalanced)

subsection \<open>C6: an opening without a matching close is skipped\<close>

text \<open>
  Claim C6. An opening delimiter for which the depth never returns to zero in the rest of
  the text, and a recorded opening tag for which the depth of the scan never returns to
  zero, produce no candidate: the iteration of the loop leaves \<open>bestRange\<close> as it was, and
  no span either matcher returns starts just after that opening. A tag whose closing tag
  occurs nowhere after it is such a tag. For the text \<open>(a\<close> with the cursor after \<open>a\<close>
  the bracket matcher returns no match.
\<close>

theorem unmatched_opening_skipped:
  "(findBracketPair (charAt t i) = Some bp \<and> (\<forall>j. \<not> balancedPair t bp i j) \<longrightarrow>
      bracketCandidate t i = None \<and> bracketStep t offset i best = best \<and>
      (\<forall>r. findEnclosingBrackets t offset = Some r \<longrightarrow> start r \<noteq> i + 1)) \<and>
   (tag \<in> set (allTags t) \<and> (\<forall>c. \<not> balancedTag t tag c) \<longrightarrow>
      tagCandidate t tag = None \<and> tagStep t offset tag best = best \<and>
      (\<forall>r. findEnclosingTags t offset = Some r \<longrightarrow> start r \<noteq> tagEnd tag)) \<and>
   (tag \<in> set (allTags t) \<and> (\<forall>c\<ge>tagEnd tag. \<not> closingTagAt t (name tag) c) \<longrightarrow>
      (\<forall>c. \<not> balancedTag t tag c)) \<and>
   findEnclosingBrackets ''(a'' 2 = None"
proof (intro conjI impI)
  assume a: "findBracketPair (charAt t i) = Some bp \<and> (\<forall>j. \<not> balancedPair t bp i j)"
  then have none: "bracketCandidate t i = None"
    by (simp add: bracketCandidate_None)
  then show "bracketCandidate t i = None" .
  from none show "bracketStep t offset i best = best"
    by (simp add: bracketStep_candidate)
  from none show "\<forall>r. findEnclosingBrackets t offset = Some r \<longrightarrow> start r \<noteq> i + 1"
    by (auto dest: findEnclosingBrackets_start)
next
  assume a: "tag \<in> set (allTags t) \<and> (\<forall>c. \<not> balancedTag t tag c)"
  then have none: "tagCandidate t tag = None"
    by (simp add: tagCandidate_None)
  then show "tagCandidate t tag = None" .
  from none show "tagStep t offset tag best = best"
    by (simp add: tagStep_candidate)
  from none a show "\<forall>r. findEnclosingTags t offset = Some r \<longrightarrow> start r \<noteq> tagEnd tag"
    by (auto dest: findEnclosingTags_start)
next
  assume a: "tag \<in> set (allTags t) \<and> (\<forall>c\<ge>tagEnd tag. \<not> closingTagAt t (name tag) c)"
  then have "wellTag t tag" by (simp add: allTags_wellTag)
  with a show "\<forall>c. \<not> balancedTag t tag c"
    by (auto dest: balancedTag_closing)
next
  show "findEnclosingBrackets ''(a'' 2 = None"
    by code_simp
qed

theorem unmatched_opening_skipped_witness:
  "bracketCandidate ''(<b>x'' 0 = None \<and>
   bracketStep ''(<b>x'' 5 0 None = None \<and>
   tagCandidate ''(<b>x'' \<lparr>index = 1, name = ''b'', tagEnd = 4\<rparr> = None \<and>
   tagStep ''(<b>x'' 5 \<lparr>index = 1, name = ''b'', tagEnd = 4\<rparr> None = None"
proof -
  let ?t = "''(<b>x''" and ?tag = "\<lparr>index = 1, name = ''b'', tagEnd = 4\<rparr>"
  have h1: "\<forall>j. \<not> balancedPair ?t (CHR ''('', CHR '')'') 0 j"
  proof (intro allI notI)
    fix j assume "balancedPair ?t (CHR ''('', CHR '')'') 0 j"
    then have "bracketCandidate ?t 0 = Some \<lparr>start = 0 + 1, endOffset = j\<rparr>"
      unfolding bracketCandidate_iff by (auto simp: brackets_def)
    with ex_unmatched show False by simp
  qed
  have h2: "\<forall>c. \<not> balancedTag ?t ?tag c"
    using ex_unmatched by (simp add: balancedTag_def flip: tagCloseScan_iff)
  from unmatched_opening_skipped [of ?t 0 "(CHR ''('', CHR '')'')" 5 None ?tag] h1 h2 ex_unmatched
  show ?thesis by simp
qed

subsection \<open>C7: nested tags\<close>

text \<open>
  Claim C7 says that the tag matcher returns the innermost enclosing tag interior, with
  three examples. The examples evaluate as the claim says: in \<open><a><b>text</b></a>\<close>
  inside \<open>text\<close> the interior of \<open>b\<close>; in \<open><div><div>x</div></div>\<close> at \<open>x\<close> the inner
  interior and between the two opening tags the outer one. The general statement fails
  where a tag encloses a tag whose name starts with its own: in
  \<open><p><pre>x</pre></p>\<close>, whose tags are \<open>p\<close> and \<open>pre\<close> and whose \<open></p>\<close> stands at
  index 15, where the search of the specification finds it, the scan of the code finds
  no closing tag for \<open>p\<close> and the tag matcher returns no match at the offsets 3 and 15,
  both inside \<open>p\<close> and outside \<open>pre\<close>; in \<open><a><a><ab></ab></a></a>\<close> at offset 19,
  between the two closing tags, it returns the span from the inner opening tag to the
  outer closing tag.
\<close>

theorem tag_examples_and_longer_name:
  "findEnclosingTags ''<a><b>text</b></a>'' 8 = Some \<lparr>start = 6, endOffset = 10\<rparr> \<and>
   findEnclosingTags ''<div><div>x</div></div>'' 10 = Some \<lparr>start = 10, endOffset = 11\<rparr> \<and>
   findEnclosingTags ''<div><div>x</div></div>'' 5 = Some \<lparr>start = 5, endOffset = 17\<rparr> \<and>
   allTags ''<p><pre>x</pre></p>'' =
     [\<lparr>index = 0, name = ''p'', tagEnd = 3\<rparr>, \<lparr>index = 3, name = ''pre'', tagEnd = 8\<rparr>] \<and>
   closingTagAt ''<p><pre>x</pre></p>'' ''p'' 15 \<and>
   sameNameCloseScan ''<p><pre>x</pre></p>'' ''p'' 3 = Some 15 \<and>
   tagCloseScan ''<p><pre>x</pre></p>'' ''p'' 3 1 = None \<and>
   findEnclosingTags ''<p><pre>x</pre></p>'' 15 = None \<and>
   findEnclosingTags ''<p><pre>x</pre></p>'' 3 = None \<and>
   findEnclosingTags ''<a><a><ab></ab></a></a>'' 19 = Some \<lparr>start = 6, endOffset = 19\<rparr>"
  by code_simp

subsection \<open>C8: the matchers carry no state between invocations\<close>

text \<open>
  Claim C8. The only state of the source that outlives a step is the \<open>lastIndex\<close> of its
  regular expression objects. Run on any heap, the tag matcher returns what the function
  of text and offset returns: the result does not depend on the heap it finds, two runs
  on different heaps agree, and a second run on the heap the first one left returns the
  same. It changes no object that existed before the call. The bracket matcher touches
  no object. A sequence of invocations, each on the heap the one before left, gives for
  every query the result of the query alone. This rests on each call creating its own
  objects: on one shared object the loop over the opening tags of \<open><a><b>\<close> at offset 0
  records the tag \<open>a\<close>, stops at \<open><b>\<close> with \<open>lastIndex\<close> 6, and run again records nothing.
\<close>

theorem matchers_stateless:
  "fst (findEnclosingTagsS t offset h) = findEnclosingTags t offset \<and>
   fst (findEnclosingBracketsS t offset h) = findEnclosingBrackets t offset \<and>
   extends h (snd (findEnclosingTagsS t offset h)) \<and>
   snd (findEnclosingBracketsS t offset h) = h \<and>
   fst (findEnclosingTagsS t offset h') = fst (findEnclosingTagsS t offset h) \<and>
   fst (findEnclosingTagsS t offset (snd (findEnclosingTagsS t offset h))) =
     fst (findEnclosingTagsS t offset h) \<and>
   fst (runQueries qs h) =
     map (\<lambda>(t, offset). (findEnclosingTags t offset, findEnclosingBrackets t offset)) qs \<and>
   fst (collectTagsS ''<a><b>'' 0 0 [] \<lparr>lastIndexOf = \<lambda>a. 0, allocated = 1\<rparr>) =
     [\<lparr>index = 0, name = ''a'', tagEnd = 3\<rparr>] \<and>
   fst (collectTagsS ''<a><b>'' 0 0 []
     (snd (collectTagsS ''<a><b>'' 0 0 [] \<lparr>lastIndexOf = \<lambda>a. 0, allocated = 1\<rparr>))) = []"
  using ex_shared
  by (simp add: findEnclosingTagsS_pure runQueries_pure findEnclosingBracketsS_def)

theorem matchers_stateless_witness:
  "fst (findEnclosingTagsS ''<a>x</a>'' 3 \<lparr>lastIndexOf = \<lambda>a. 5, allocated = 2\<rparr>) =
     Some \<lparr>start = 3, endOffset = 4\<rparr> \<and>
   lastIndexOf (snd (findEnclosingTagsS ''<a>x</a>'' 3 \<lparr>lastIndexOf = \<lambda>a. 5, allocated = 2\<rparr>)) 1 = 5 \<and>
   fst (runQueries [(''<a><b>'', 0), (''<a>x</a>'', 3), (''<a><b>'', 0), (''<a>x</a>'', 3)]
        \<lparr>lastIndexOf = \<lambda>a. 5, allocated = 2\<rparr>) =
     [(None, None), (Some \<lparr>start = 3, endOffset = 4\<rparr>, None),
      (None, None), (Some \<lparr>start = 3, endOffset = 4\<rparr>, None)]"
  using matchers_stateless [of "''<a>x</a>''" 3 "\<lparr>lastIndexOf = \<lambda>a. 5, allocated = 2\<rparr>"
      "\<lparr>lastIndexOf = \<lambda>a. 5, allocated = 2\<rparr>"
      "[(''<a><b>'', 0), (''<a>x</a>'', 3), (''<a><b>'', 0), (''<a>x</a>'', 3)]"]
    ex_queries
  by (simp add: extends_def)

subsection \<open>C9: containment at the boundaries of an interior\<close>

text \<open>
  Claim C9. For a pair the bracket loop forms at index \<open>i\<close> with interior \<open>r\<close>: the
  offset \<open>i\<close>, on the opening delimiter, is not contained in \<open>r\<close> and the matcher does not
  return \<open>r\<close> there; both ends of \<open>r\<close> are contained; at the start of \<open>r\<close> the matcher
  returns \<open>r\<close>, and at its end, just before the closing delimiter, it returns a span
  that starts no earlier than \<open>r\<close>. The same holds for the interior of a recorded tag,
  with every offset from the \<open><\<close> of the opening tag up to its \<open>>\<close> in place of \<open>i\<close>.
\<close>

theorem containment_at_boundaries:
  "(bracketCandidate t i = Some r \<longrightarrow>
      \<not> containsPos r i \<and> containsPos r (start r) \<and> containsPos r (endOffset r) \<and>
      findEnclosingBrackets t i \<noteq> Some r \<and>
      findEnclosingBrackets t (start r) = Some r \<and>
      (\<exists>r'. findEnclosingBrackets t (endOffset r) = Some r' \<and> start r \<le> start r')) \<and>
   (tag \<in> set (allTags t) \<and> tagCandidate t tag = Some r2 \<longrightarrow>
      (\<forall>p. index tag \<le> p \<and> p < tagEnd tag \<longrightarrow>
         \<not> containsPos r2 p \<and> findEnclosingTags t p \<noteq> Some r2) \<and>
      containsPos r2 (start r2) \<and> containsPos r2 (endOffset r2) \<and>
      findEnclosingTags t (start r2) = Some r2 \<and>
      (\<exists>r'. findEnclosingTags t (endOffset r2) = Some r' \<and> start r2 \<le> start r'))"
proof (intro conjI impI)
  assume c: "bracketCandidate t i = Some r"
  from c have st: "start r = i + 1" by (rule bracketCandidate_start)
  from c have ord: "start r \<le> endOffset r" by (rule bracketCandidate_order)
  from st show no: "\<not> containsPos r i" by (simp add: containsPos_iff)
  from ord show "containsPos r (start r)" "containsPos r (endOffset r)"
    by (simp_all add: containsPos_iff)
  from no show "findEnclosingBrackets t i \<noteq> Some r"
    by (auto dest: findEnclosingBrackets_contains)
  from c show "findEnclosingBrackets t (start r) = Some r"
    by (rule bracketCandidate_at_start)
  from c show "\<exists>r'. findEnclosingBrackets t (endOffset r) = Some r' \<and> start r \<le> start r'"
    by (rule bracketCandidate_at_end)
next
  assume a: "tag \<in> set (allTags t) \<and> tagCandidate t tag = Some r2"
  then have m: "tag \<in> set (allTags t)" and c: "tagCandidate t tag = Some r2" by simp_all
  from c have st: "start r2 = tagEnd tag" and ord: "start r2 \<le> endOffset r2"
    by (simp_all add: tagCandidate_iff)
  from st show "\<forall>p. index tag \<le> p \<and> p < tagEnd tag \<longrightarrow>
         \<not> containsPos r2 p \<and> findEnclosingTags t p \<noteq> Some r2"
    by (auto simp: containsPos_iff dest: findEnclosingTags_contains)
  from ord show "containsPos r2 (start r2)" "containsPos r2 (endOffset r2)"
    by (simp_all add: containsPos_iff)
  from m c show "findEnclosingTags t (start r2) = Some r2"
    by (rule tagCandidate_at_start)
  from m c show "\<exists>r'. findEnclosingTags t (endOffset r2) = Some r' \<and> start r2 \<le> start r'"
    by (rule tagCandidate_at_end)
qed

theorem containment_at_boundaries_witness:
  "findEnclosingBrackets ''<a>(x)</a>'' 3 \<noteq> Some \<lparr>start = 4, endOffset = 5\<rparr> \<and>
   findEnclosingBrackets ''<a>(x)</a>'' 4 = Some \<lparr>start = 4, endOffset = 5\<rparr> \<and>
   (\<exists>r'. findEnclosingBrackets ''<a>(x)</a>'' 5 = Some r' \<and> 4 \<le> start r') \<and>
   findEnclosingTags ''<a>(x)</a>'' 1 \<noteq> Some \<lparr>start = 3, endOffset = 6\<rparr> \<and>
   findEnclosingTags ''<a>(x)</a>'' 3 = Some \<lparr>start = 3, endOffset = 6\<rparr> \<and>
   (\<exists>r'. findEnclosingTags ''<a>(x)</a>'' 6 = Some r' \<and> 3 \<le> start r')"
  using containment_at_boundaries [of "''<a>(x)</a>''" 3 "\<lparr>start = 4, endOffset = 5\<rparr>"
      "\<lparr>index = 0, name = ''a'', tagEnd = 3\<rparr>" "\<lparr>start = 3, endOffset = 6\<rparr>"] ex_boundaries
  by simp

subsection \<open>C10: the selection is replaced exactly when a matcher succeeds\<close>

text \<open>
  Claim C10. For every cursor of the editor the command stores a selection, and the
  document and the number of selections stay as they were. Every span a matcher returns
  contains the cursor, so the containment filter of the selector keeps all candidates.
  When both matchers return none the command stores the selection it found at that
  cursor; when a matcher returns a span the command stores the selection that runs from
  the start to the end of a span one of the matchers returned, the one the selector
  picked. So the stored selection comes from a span exactly when a matcher returns one.
\<close>

theorem selectEnclosing_replaces_iff_match:
  assumes "i < length (selections ed)"
  shows "\<exists>ed'. selectEnclosing (Some ed) = Some ed' \<and> document ed' = document ed \<and>
     length (selections ed') = length (selections ed) \<and>
     filter (\<lambda>r. containsPos r (active (selections ed ! i)))
         (candidatesAt (document ed) (active (selections ed ! i))) =
       candidatesAt (document ed) (active (selections ed ! i)) \<and>
     (findEnclosingTags (document ed) (active (selections ed ! i)) = None \<and>
      findEnclosingBrackets (document ed) (active (selections ed ! i)) = None \<longrightarrow>
        selections ed' ! i = selections ed ! i) \<and>
     (findEnclosingTags (document ed) (active (selections ed ! i)) \<noteq> None \<or>
      findEnclosingBrackets (document ed) (active (selections ed ! i)) \<noteq> None \<longrightarrow>
        (\<exists>r. (findEnclosingTags (document ed) (active (selections ed ! i)) = Some r \<or>
              findEnclosingBrackets (document ed) (active (selections ed ! i)) = Some r) \<and>
             selectBest (active (selections ed ! i))
               (candidatesAt (document ed) (active (selections ed ! i))) = Some r \<and>
             selections ed' ! i = \<lparr>anchor = start r, active = endOffset r\<rparr>)) \<and>
     ((\<exists>r. selectBest (active (selections ed ! i))
               (candidatesAt (document ed) (active (selections ed ! i))) = Some r \<and>
            selections ed' ! i = \<lparr>anchor = start r, active = endOffset r\<rparr>) \<longleftrightarrow>
      findEnclosingTags (document ed) (active (selections ed ! i)) \<noteq> None \<or>
      findEnclosingBrackets (document ed) (active (selections ed ! i)) \<noteq> None)"
proof -
  let ?t = "document ed" and ?sel = "selections ed ! i"
  let ?ed' = "ed\<lparr>selections := map (newSelection ?t) (selections ed)\<rparr>"
  note c = newSelection_cases [of ?sel ?t]
  from assms have slot: "selections ?ed' ! i = newSelection ?t ?sel" by simp
  have "selectEnclosing (Some ed) = Some ?ed'" by (rule selectEnclosing_Some)
  moreover have "document ?ed' = document ed" "length (selections ?ed') = length (selections ed)"
    by simp_all
  moreover from c have "filter (\<lambda>r. containsPos r (active ?sel)) (candidatesAt ?t (active ?sel)) =
      candidatesAt ?t (active ?sel)" by blast
  moreover from c slot have "findEnclosingTags ?t (active ?sel) = None \<and>
      findEnclosingBrackets ?t (active ?sel) = None \<longrightarrow> selections ?ed' ! i = ?sel"
    by (simp only:) blast
  moreover from c slot have some: "findEnclosingTags ?t (active ?sel) \<noteq> None \<or>
      findEnclosingBrackets ?t (active ?sel) \<noteq> None \<longrightarrow>
        (\<exists>r. (findEnclosingTags ?t (active ?sel) = Some r \<or>
              findEnclosingBrackets ?t (active ?sel) = Some r) \<and>
             selectBest (active ?sel) (candidatesAt ?t (active ?sel)) = Some r \<and>
             selections ?ed' ! i = \<lparr>anchor = start r, active = endOffset r\<rparr>)"
    by (simp only:) blast
  moreover have "(\<exists>r. selectBest (active ?sel) (candidatesAt ?t (active ?sel)) = Some r \<and>
            selections ?ed' ! i = \<lparr>anchor = start r, active = endOffset r\<rparr>) \<longleftrightarrow>
      findEnclosingTags ?t (active ?sel) \<noteq> None \<or> findEnclosingBrackets ?t (active ?sel) \<noteq> None"
  proof
    assume "\<exists>r. selectBest (active ?sel) (candidatesAt ?t (active ?sel)) = Some r \<and>
            selections ?ed' ! i = \<lparr>anchor = start r, active = endOffset r\<rparr>"
    then have "selectBest (active ?sel) (candidatesAt ?t (active ?sel)) \<noteq> None" by auto
    with c show "findEnclosingTags ?t (active ?sel) \<noteq> None \<or>
        findEnclosingBrackets ?t (active ?sel) \<noteq> None" by blast
  next
    assume "findEnclosingTags ?t (active ?sel) \<noteq> None \<or>
        findEnclosingBrackets ?t (active ?sel) \<noteq> None"
    with some show "\<exists>r. selectBest (active ?sel) (candidatesAt ?t (active ?sel)) = Some r \<and>
            selections ?ed' ! i = \<lparr>anchor = start r, active = endOffset r\<rparr>" by blast
  qed
  ultimately show ?thesis by blast
qed

theorem selectEnclosing_replaces_iff_match_witness:
  "(\<exists>ed'. selectEnclosing (Some \<lparr>document = ''(a) b'',
        selections = [\<lparr>anchor = 0, active = 1\<rparr>, \<lparr>anchor = 4, active = 5\<rparr>]\<rparr>) = Some ed' \<and>
      selections ed' ! 0 = \<lparr>anchor = 1, active = 2\<rparr>) \<and>
   (\<exists>ed'. selectEnclosing (Some \<lparr>document = ''(a) b'',
        selections = [\<lparr>anchor = 0, active = 1\<rparr>, \<lparr>anchor = 4, active = 5\<rparr>]\<rparr>) = Some ed' \<and>
      selections ed' ! 1 = \<lparr>anchor = 4, active = 5\<rparr>)"
proof -
  let ?ed = "\<lparr>document = ''(a) b'',
        selections = [\<lparr>anchor = 0, active = 1\<rparr>, \<lparr>anchor = 4, active = 5\<rparr>]\<rparr>"
  from selectEnclosing_replaces_iff_match [of 0 ?ed] ex_two_slots
  have 1: "\<exists>ed'. selectEnclosing (Some ?ed) = Some ed' \<and>
      selections ed' ! 0 = \<lparr>anchor = 1, active = 2\<rparr>"
    by auto
  from selectEnclosing_replaces_iff_match [of 1 ?ed] ex_two_slots
  have 2: "\<exists>ed'. selectEnclosing (Some ?ed) = Some ed' \<and>
      selections ed' ! 1 = \<lparr>anchor = 4, active = 5\<rparr>"
    by auto
  from 1 2 show ?thesis by blast
qed

end
